theory Spec2Isabelle
  imports Main "HOL-Library.Sublist" "HOL-Library.Word"
begin

section \<open>Text and bytes\<close>

text \<open>
  A Python \<open>str\<close> is a sequence of Unicode code points; a file's content is a sequence
  of bytes. Code points are natural numbers, bytes are 8-bit words.
\<close>

type_synonym ustr = "nat list"
type_synonym byte = "8 word"
type_synonym path = "nat list"

definition asc :: "string \<Rightarrow> ustr" where
  "asc s = map of_char s"

subsection \<open>\<open>str.count\<close> and \<open>str.replace\<close>\<close>

text \<open>
  \<open>s.count(sub)\<close> counts the non-overlapping occurrences of \<open>sub\<close> in \<open>s\<close>, scanning
  from the left and continuing behind each occurrence found; \<open>s.replace(old, new)\<close>
  replaces exactly these occurrences. For the empty pattern Python counts
  \<open>len(s) + 1\<close> occurrences and inserts \<open>new\<close> before every character and at the end.
\<close>

fun count_scan :: "ustr \<Rightarrow> ustr \<Rightarrow> nat" where
  "count_scan sub [] = 0"
| "count_scan sub (c # cs) =
     (if prefix sub (c # cs) then Suc (count_scan sub (drop (length sub - 1) cs))
      else count_scan sub cs)"

definition str_count :: "ustr \<Rightarrow> ustr \<Rightarrow> nat" where
  "str_count s sub = (if sub = [] then length s + 1 else count_scan sub s)"

fun replace_scan :: "ustr \<Rightarrow> ustr \<Rightarrow> ustr \<Rightarrow> ustr" where
  "replace_scan old new [] = []"
| "replace_scan old new (c # cs) =
     (if prefix old (c # cs) then new @ replace_scan old new (drop (length old - 1) cs)
      else c # replace_scan old new cs)"

definition str_replace :: "ustr \<Rightarrow> ustr \<Rightarrow> ustr \<Rightarrow> ustr" where
  "str_replace s old new =
     (if old = [] then new @ concat (map (\<lambda>c. c # new) s) else replace_scan old new s)"

section \<open>The substitution table\<close>

text \<open>
  \<open>ENCODING_FIXES\<close> is a dict literal. Python evaluates the key/value pairs of the
  literal from top to bottom and stores each one; storing under a key that is already
  present keeps the key's position and overwrites its value. Iteration
  (\<open>.items()\<close>) follows insertion order.
\<close>

fun dict_store :: "('k \<times> 'v) list \<Rightarrow> 'k \<Rightarrow> 'v \<Rightarrow> ('k \<times> 'v) list" where
  "dict_store [] k v = [(k, v)]"
| "dict_store ((k', v') # d) k v =
     (if k' = k then (k', v) # d else (k', v') # dict_store d k v)"

definition dict_literal :: "('k \<times> 'v) list \<Rightarrow> ('k \<times> 'v) list" where
  "dict_literal kvs = foldl (\<lambda>d (k, v). dict_store d k v) [] kvs"

text \<open>The pairs as written in lines 21 to 67 of the source, in source order.\<close>

definition ENCODING_FIXES_literal :: "(ustr \<times> ustr) list" where
  "ENCODING_FIXES_literal =
    [
     ([0xC3, 0x0192, 0xC2, 0xBC], [0xFC]),
     ([0xC3, 0x0192, 0xC2, 0xA4], [0xE4]),
     ([0xC3, 0x0192, 0xC2, 0xB6], [0xF6]),
     ([0xC3, 0x0192, 0xC5, 0xB8], [0xDF]),
     ([0xC3, 0x0192, 0xC5, 0xA1], [0xDF]),
     ([0xC3, 0x0192, 0xC2, 0x201E], [0xC4]),
     ([0xC3, 0x0192, 0xC2, 0x2013], [0xD6]),
     ([0xC3, 0x0192, 0xC5], [0xDC]),
     ([0xC3, 0xBC], [0xFC]),
     ([0xC3, 0xA4], [0xE4]),
     ([0xC3, 0xB6], [0xF6]),
     ([0xC3, 0x0178], [0xDF]),
     ([0xC3, 0x201E], [0xC4]),
     ([0xC3, 0x2013], [0xD6]),
     ([0xC3, 0x0153], [0xDC]),
     (asc ''sp'' @ [0xC3, 0xA4] @ asc ''ter'', asc ''sp'' @ [0xE4] @ asc ''ter''),
     (asc ''m'' @ [0xC3, 0xBC] @ asc ''ssen'', asc ''m'' @ [0xFC] @ asc ''ssen''),
     (asc ''f'' @ [0xC3, 0xBC] @ asc ''r'', asc ''f'' @ [0xFC] @ asc ''r''),
     ([0xC3, 0xBC] @ asc ''ber'', [0xFC] @ asc ''ber''),
     (asc ''erf'' @ [0xC3, 0xBC] @ asc ''llt'', asc ''erf'' @ [0xFC] @ asc ''llt''),
     (asc ''ausf'' @ [0xC3, 0xBC] @ asc ''llen'', asc ''ausf'' @ [0xFC] @ asc ''llen''),
     (asc ''zur'' @ [0xC3, 0xBC] @ asc ''ck'', asc ''zur'' @ [0xFC] @ asc ''ck''),
     (asc ''Gr'' @ [0xC3, 0xBC, 0xC3, 0x0178] @ asc ''en'', asc ''Gr'' @ [0xFC, 0xDF] @ asc ''en''),
     (asc ''best'' @ [0xC3, 0xA4] @ asc ''tigen'', asc ''best'' @ [0xE4] @ asc ''tigen''),
     (asc ''Ung'' @ [0xC3, 0xBC] @ asc ''ltig'', asc ''Ung'' @ [0xFC] @ asc ''ltig''),
     (asc ''g'' @ [0xC3, 0xBC] @ asc ''ltig'', asc ''g'' @ [0xFC] @ asc ''ltig''),
     (asc ''St'' @ [0xC3, 0xA4] @ asc ''rke'', asc ''St'' @ [0xE4] @ asc ''rke''),
     (asc ''Gro'' @ [0xC3, 0x0178] @ asc ''buchstabe'', asc ''Gro'' @ [0xDF] @ asc ''buchstabe''),
     (asc ''w'' @ [0xC3, 0xA4] @ asc ''hlen'', asc ''w'' @ [0xE4] @ asc ''hlen''),
     (asc ''Ben'' @ [0xC3, 0xB6] @ asc ''tigt'', asc ''Ben'' @ [0xF6] @ asc ''tigt''),
     (asc ''Funktionalit'' @ [0xC3, 0xA4] @ asc ''t'', asc ''Funktionalit'' @ [0xE4] @ asc ''t''),
     (asc ''Pers'' @ [0xC3, 0xB6] @ asc ''nliche'', asc ''Pers'' @ [0xF6] @ asc ''nliche''),
     (asc ''VOLLST'' @ [0xC3, 0x201E] @ asc ''NDIG'', asc ''VOLLST'' @ [0xC4] @ asc ''NDIG''),
     ([0xE2, 0x201A, 0xAC], [0x20AC]),
     ([0xE2, 0x20AC, 0x0153], [0x201C]),
     ([0xE2, 0x20AC, 0xFFFD], [0x201D]),
     ([0xE2, 0x20AC, 0x2122], [0x2019]),
     ([0xE2, 0x20AC, 0x201C], [0x2013]),
     ([0xE2, 0x20AC, 0x201D], [0x2014]),
     ([0xE2, 0x2020, 0x2019], [0x2190]),
     ([0xE2, 0x2020, 0x2019], [0x2192])
    ]"

definition ENCODING_FIXES :: "(ustr \<times> ustr) list" where
  "ENCODING_FIXES = dict_literal ENCODING_FIXES_literal"

section \<open>Console output\<close>

text \<open>
  The exceptions the program can meet: an operating-system error while reading, copying
  or writing, the encoding error of the file write, and an exception raised by \<open>print\<close>
  (\<open>UnicodeEncodeError\<close> on a console whose encoding lacks a printed character,
  \<open>BrokenPipeError\<close> on a closed pipe).
\<close>

datatype error = OSError_read | OSError_copy | OSError_write | UnicodeEncodeError | Print_failed

text \<open>
  One constructor for every \<open>print\<close> call of the source. The lines of
  \<open>process_file\<close>: line 146 (\<open>Fix_line\<close>, holds U+2192), line 134
  (\<open>Unknown_encoding_line\<close>, holds U+2717), line 159 (\<open>Repaired_line\<close>, holds
  U+2713), line 161 (\<open>Would_repair_line\<close>), line 168 (\<open>Error_line\<close>, holds
  U+2717). The lines of \<open>main\<close>: lines 193 to 196, line 206
  (\<open>Missing_directory_line\<close>, holds U+2717), line 212 (\<open>Check_line\<close>) and the
  summary of lines 220 to 235.
\<close>

datatype message =
    Fix_line ustr ustr nat
  | Unknown_encoding_line
  | Repaired_line nat
  | Would_repair_line nat
  | Error_line error
  | Check_line path
  | Missing_directory_line path
  | Started_line
  | Directory_line path
  | Dry_run_mode_line bool
  | Blank_line
  | Summary_header_line
  | Checked_files_line nat
  | Changed_files_line nat
  | Corrections_line nat
  | Dry_run_note_line
  | Dry_run_hint_line
  | Backups_note_line
  | Done_line

section \<open>The substitution pass\<close>

text \<open>
  The loop of lines 141 to 146: for every table entry in iteration order, count the
  pattern in the current content; when the count is positive, replace, add the count
  to the running total and print one line. The lines are collected in the order the loop
  prints them; \<open>print_lines\<close> below sends them to the console.
\<close>

fun apply_fixes ::
  "(ustr \<times> ustr) list \<Rightarrow> ustr \<Rightarrow> nat \<Rightarrow> message list \<Rightarrow> ustr \<times> nat \<times> message list" where
  "apply_fixes [] content total_replacements out = (content, total_replacements, out)"
| "apply_fixes ((wrong, correct) # rest) content total_replacements out =
     (let before_count = str_count content wrong in
      if before_count > 0
      then apply_fixes rest (str_replace content wrong correct)
             (total_replacements + before_count) (out @ [Fix_line wrong correct before_count])
      else apply_fixes rest content total_replacements out)"

text \<open>
  The pass as the specification words it: every entry counts its pattern in the current
  text, replaces all occurrences and adds the count to a running total.
\<close>

definition spec_pass :: "(ustr \<times> ustr) list \<Rightarrow> ustr \<Rightarrow> ustr \<times> nat" where
  "spec_pass table text =
     foldl (\<lambda>(cur, total) (pattern, replacement).
              (str_replace cur pattern replacement, total + str_count cur pattern))
           (text, 0) table"

section \<open>Codecs\<close>

datatype encoding = UTF_8 | Windows_1252 | ISO_8859_1 | CP1252

definition encodings :: "encoding list" where
  "encodings = [UTF_8, Windows_1252, ISO_8859_1, CP1252]"

text \<open>
  Python's strict UTF-8 decoder: shortest forms only, no surrogates, nothing above
  U+10FFFF; any other byte sequence raises \<open>UnicodeDecodeError\<close> (here \<open>None\<close>).
\<close>

definition in_range :: "nat \<Rightarrow> nat \<Rightarrow> byte \<Rightarrow> bool" where
  "in_range lo hi b = (lo \<le> unat b \<and> unat b \<le> hi)"

definition second_lo :: "nat \<Rightarrow> nat" where
  "second_lo n0 = (if n0 = 0xE0 then 0xA0 else if n0 = 0xF0 then 0x90 else 0x80)"

definition second_hi :: "nat \<Rightarrow> nat" where
  "second_hi n0 = (if n0 = 0xED then 0x9F else if n0 = 0xF4 then 0x8F else 0xBF)"

fun utf8_decode :: "byte list \<Rightarrow> ustr option" where
  "utf8_decode [] = Some []"
| "utf8_decode (b0 # bs) =
     (let n0 = unat b0 in
      if n0 < 0x80 then map_option ((#) n0) (utf8_decode bs)
      else if 0xC2 \<le> n0 \<and> n0 \<le> 0xDF then
        (case bs of
           b1 # bs1 \<Rightarrow>
             if in_range 0x80 0xBF b1
             then map_option ((#) ((n0 - 0xC0) * 64 + (unat b1 - 0x80))) (utf8_decode bs1)
             else None
         | _ \<Rightarrow> None)
      else if 0xE0 \<le> n0 \<and> n0 \<le> 0xEF then
        (case bs of
           b1 # b2 # bs2 \<Rightarrow>
             if in_range (second_lo n0) (second_hi n0) b1 \<and> in_range 0x80 0xBF b2
             then map_option
                    ((#) ((n0 - 0xE0) * 4096 + (unat b1 - 0x80) * 64 + (unat b2 - 0x80)))
                    (utf8_decode bs2)
             else None
         | _ \<Rightarrow> None)
      else if 0xF0 \<le> n0 \<and> n0 \<le> 0xF4 then
        (case bs of
           b1 # b2 # b3 # bs3 \<Rightarrow>
             if in_range (second_lo n0) (second_hi n0) b1 \<and> in_range 0x80 0xBF b2
                \<and> in_range 0x80 0xBF b3
             then map_option
                    ((#) ((n0 - 0xF0) * 262144 + (unat b1 - 0x80) * 4096
                          + (unat b2 - 0x80) * 64 + (unat b3 - 0x80)))
                    (utf8_decode bs3)
             else None
         | _ \<Rightarrow> None)
      else None)"

text \<open>
  Python's strict UTF-8 encoder raises \<open>UnicodeEncodeError\<close> on a surrogate code point;
  a \<open>str\<close> holds no code point above U+10FFFF.
\<close>

definition utf8_encode_char :: "nat \<Rightarrow> byte list option" where
  "utf8_encode_char c =
     (if c < 0x80 then Some [of_nat c]
      else if c < 0x800 then Some [of_nat (0xC0 + c div 64), of_nat (0x80 + c mod 64)]
      else if 0xD800 \<le> c \<and> c \<le> 0xDFFF then None
      else if c < 0x10000 then
        Some [of_nat (0xE0 + c div 4096), of_nat (0x80 + c div 64 mod 64),
              of_nat (0x80 + c mod 64)]
      else if c < 0x110000 then
        Some [of_nat (0xF0 + c div 262144), of_nat (0x80 + c div 4096 mod 64),
              of_nat (0x80 + c div 64 mod 64), of_nat (0x80 + c mod 64)]
      else None)"

fun utf8_encode :: "ustr \<Rightarrow> byte list option" where
  "utf8_encode [] = Some []"
| "utf8_encode (c # cs) =
     (case utf8_encode_char c of
        None \<Rightarrow> None
      | Some bs \<Rightarrow> map_option ((@) bs) (utf8_encode cs))"

text \<open>
  Python's \<open>cp1252\<close> codec (\<open>windows-1252\<close> is an alias of it): bytes 0x80 to 0x9F go
  through a table in which 0x81, 0x8D, 0x8F, 0x90 and 0x9D are undefined; every other
  byte is its own code point.
\<close>

definition cp1252_high :: "nat option list" where
  "cp1252_high =
    [Some 0x20AC, None, Some 0x201A, Some 0x0192, Some 0x201E, Some 0x2026, Some 0x2020,
     Some 0x2021, Some 0x02C6, Some 0x2030, Some 0x0160, Some 0x2039, Some 0x0152, None,
     Some 0x017D, None, None, Some 0x2018, Some 0x2019, Some 0x201C, Some 0x201D,
     Some 0x2022, Some 0x2013, Some 0x2014, Some 0x02DC, Some 0x2122, Some 0x0161,
     Some 0x203A, Some 0x0153, None, Some 0x017E, Some 0x0178]"

definition cp1252_char :: "byte \<Rightarrow> nat option" where
  "cp1252_char b =
     (if 0x80 \<le> unat b \<and> unat b < 0xA0 then cp1252_high ! (unat b - 0x80)
      else Some (unat b))"

fun cp1252_decode :: "byte list \<Rightarrow> ustr option" where
  "cp1252_decode [] = Some []"
| "cp1252_decode (b # bs) =
     (case cp1252_char b of
        None \<Rightarrow> None
      | Some c \<Rightarrow> map_option ((#) c) (cp1252_decode bs))"

definition latin1_decode :: "byte list \<Rightarrow> ustr option" where
  "latin1_decode bs = Some (map unat bs)"

fun decode :: "encoding \<Rightarrow> byte list \<Rightarrow> ustr option" where
  "decode UTF_8 bs = utf8_decode bs"
| "decode Windows_1252 bs = cp1252_decode bs"
| "decode ISO_8859_1 bs = latin1_decode bs"
| "decode CP1252 bs = cp1252_decode bs"

text \<open>
  A file opened in text mode with the default \<open>newline=None\<close>: on reading, \<open>\r\n\<close> and
  a lone \<open>\r\<close> become \<open>\n\<close>; on writing, \<open>\n\<close> becomes \<open>os.linesep\<close>.
\<close>

fun universal_newlines :: "ustr \<Rightarrow> ustr" where
  "universal_newlines [] = []"
| "universal_newlines [c] = (if c = 0x0D then [0x0A] else [c])"
| "universal_newlines (c # d # cs) =
     (if c = 0x0D \<and> d = 0x0A then 0x0A # universal_newlines cs
      else if c = 0x0D then 0x0A # universal_newlines (d # cs)
      else c # universal_newlines (d # cs))"

datatype platform = Posix | Windows

fun linesep :: "platform \<Rightarrow> ustr" where
  "linesep Posix = [0x0A]"
| "linesep Windows = [0x0D, 0x0A]"

definition write_newlines :: "platform \<Rightarrow> ustr \<Rightarrow> ustr" where
  "write_newlines pf s = concat (map (\<lambda>c. if c = 0x0A then linesep pf else [c]) s)"

section \<open>The filesystem and its failures\<close>

text \<open>
  The filesystem maps the path of every regular file to its bytes. Whatever the
  program cannot decide is a parameter: whether an operation of the operating system
  raises, what a failed copy or write leaves behind at its destination, whether printing
  a line raises on this console, the platform, and the answers of \<open>pathlib\<close> and
  \<open>str.lower\<close>.
\<close>

type_synonym filesystem = "path \<Rightarrow> byte list option"

datatype io_outcome = Succeeds | Raises "byte list option"

record env =
  platform :: platform
  read_raises :: "path \<Rightarrow> bool"
  copy_outcome :: "path \<Rightarrow> path \<Rightarrow> io_outcome"
  write_outcome :: "path \<Rightarrow> io_outcome"
  print_raises :: "message \<Rightarrow> bool"
  path_exists :: "path \<Rightarrow> bool"
  rglob :: "path \<Rightarrow> path list"
  is_file :: "path \<Rightarrow> bool"
  path_suffix :: "path \<Rightarrow> ustr"
  str_lower :: "ustr \<Rightarrow> ustr"

definition open_read :: "env \<Rightarrow> filesystem \<Rightarrow> path \<Rightarrow> error + byte list" where
  "open_read e fs p =
     (if read_raises e p then Inl OSError_read
      else case fs p of None \<Rightarrow> Inl OSError_read | Some raw \<Rightarrow> Inr raw)"

definition copy2 :: "env \<Rightarrow> filesystem \<Rightarrow> path \<Rightarrow> path \<Rightarrow> filesystem \<times> error option" where
  "copy2 e fs src dst =
     (case fs src of
        None \<Rightarrow> (fs, Some OSError_copy)
      | Some raw \<Rightarrow>
          (case copy_outcome e src dst of
             Succeeds \<Rightarrow> (fs(dst \<mapsto> raw), None)
           | Raises left \<Rightarrow> (fs(dst := left), Some OSError_copy)))"

text \<open>
  \<open>open(file_path, 'w', encoding='utf-8')\<close> followed by \<open>f.write(content)\<close>: opening
  truncates the file, so an encoding error leaves it empty.
\<close>

definition write_text :: "env \<Rightarrow> filesystem \<Rightarrow> path \<Rightarrow> ustr \<Rightarrow> filesystem \<times> error option" where
  "write_text e fs p content =
     (case write_outcome e p of
        Raises left \<Rightarrow> (fs(p := left), Some OSError_write)
      | Succeeds \<Rightarrow>
          (case utf8_encode (write_newlines (platform e) content) of
             None \<Rightarrow> (fs(p \<mapsto> []), Some UnicodeEncodeError)
           | Some bs \<Rightarrow> (fs(p \<mapsto> bs), None)))"

definition backup_path :: "path \<Rightarrow> path" where
  "backup_path file_path = file_path @ asc ''.backup''"

text \<open>
  Printing a sequence of lines: the first \<open>print\<close> that raises ends the sequence. The
  result is the lines that reached the console and the exception, if one was raised.
\<close>

fun print_lines :: "env \<Rightarrow> message list \<Rightarrow> message list \<times> error option" where
  "print_lines e [] = ([], None)"
| "print_lines e (m # ms) =
     (if print_raises e m then ([], Some Print_failed)
      else case print_lines e ms of (printed, raised) \<Rightarrow> (m # printed, raised))"

section \<open>Processing one file\<close>

text \<open>
  The loop of lines 124 to 131: each round opens the file with the next encoding and
  reads it; \<open>UnicodeDecodeError\<close> moves on to the next encoding, any other exception
  leaves the loop.
\<close>

fun try_encodings ::
  "env \<Rightarrow> filesystem \<Rightarrow> path \<Rightarrow> encoding list \<Rightarrow> error + (ustr \<times> encoding) option" where
  "try_encodings e fs file_path [] = Inr None"
| "try_encodings e fs file_path (encoding # rest) =
     (case open_read e fs file_path of
        Inl err \<Rightarrow> Inl err
      | Inr raw \<Rightarrow>
          (case decode encoding raw of
             Some text \<Rightarrow> Inr (Some (universal_newlines text, encoding))
           | None \<Rightarrow> try_encodings e fs file_path rest))"

text \<open>
  The body of the \<open>try\<close> block: the filesystem and the console output it leaves, and
  either the exception that ended it or the value it returned. The substitution loop
  changes nothing but its own variables and the console, so a \<open>print\<close> of the loop
  that raises is modelled after the pass: of the lines the loop prints, those before the
  first failing one reach the console, and the exception ends the block before the
  filesystem is touched.
\<close>

definition process_file_try ::
  "env \<Rightarrow> filesystem \<Rightarrow> path \<Rightarrow> bool
     \<Rightarrow> filesystem \<times> message list \<times> (error + nat \<times> bool)" where
  "process_file_try e fs file_path dry_run =
     (case try_encodings e fs file_path encodings of
        Inl err \<Rightarrow> (fs, [], Inl err)
      | Inr None \<Rightarrow>
          if print_raises e Unknown_encoding_line then (fs, [], Inl Print_failed)
          else (fs, [Unknown_encoding_line], Inr (0, False))
      | Inr (Some (original_content, original_encoding)) \<Rightarrow>
          (case apply_fixes ENCODING_FIXES original_content 0 [] of
             (content, total_replacements, lines) \<Rightarrow>
               (case print_lines e lines of
                  (out, Some err) \<Rightarrow> (fs, out, Inl err)
                | (out, None) \<Rightarrow>
                    if content \<noteq> original_content then
                      if \<not> dry_run then
                        (case copy2 e fs file_path (backup_path file_path) of
                           (fs1, Some err) \<Rightarrow> (fs1, out, Inl err)
                         | (fs1, None) \<Rightarrow>
                             (case write_text e fs1 file_path content of
                                (fs2, Some err) \<Rightarrow> (fs2, out, Inl err)
                              | (fs2, None) \<Rightarrow>
                                  if print_raises e (Repaired_line total_replacements)
                                  then (fs2, out, Inl Print_failed)
                                  else (fs2, out @ [Repaired_line total_replacements],
                                        Inr (total_replacements, True))))
                      else if print_raises e (Would_repair_line total_replacements)
                           then (fs, out, Inl Print_failed)
                           else (fs, out @ [Would_repair_line total_replacements],
                                 Inr (total_replacements, True))
                    else (fs, out, Inr (0, False)))))"

text \<open>
  The \<open>except Exception\<close> handler of lines 167 to 169 prints the error and returns
  \<open>(0, False)\<close>. Its \<open>print\<close> is not guarded: when it raises, the exception leaves
  \<open>process_file\<close> (\<open>Inl\<close>).
\<close>

definition process_file ::
  "env \<Rightarrow> filesystem \<Rightarrow> path \<Rightarrow> bool
     \<Rightarrow> filesystem \<times> message list \<times> (error + nat \<times> bool)" where
  "process_file e fs file_path dry_run =
     (case process_file_try e fs file_path dry_run of
        (fs', out, Inl err) \<Rightarrow>
          if print_raises e (Error_line err) then (fs', out, Inl Print_failed)
          else (fs', out @ [Error_line err], Inr (0, False))
      | (fs', out, Inr result) \<Rightarrow> (fs', out, Inr result))"

section \<open>The directory walk\<close>


record summary =
  total_files :: nat
  changed_files :: nat
  total_replacements :: nat




section \<open>Properties of tables and texts used in the proofs\<close>

text \<open>
  \<open>harmless q table\<close>: no replacement of the table is empty or shares a character with
  \<open>q\<close>, so no entry of the table can complete an occurrence of \<open>q\<close>.
  \<open>cleared q table\<close>: the table has an entry with pattern \<open>q\<close> such that this entry and
  all later ones are harmless for \<open>q\<close>.
\<close>

definition harmless :: "ustr \<Rightarrow> (ustr \<times> ustr) list \<Rightarrow> bool" where
  "harmless q table =
     list_all (\<lambda>(wrong, correct). correct \<noteq> [] \<and> set q \<inter> set correct = {}) table"

fun cleared :: "ustr \<Rightarrow> (ustr \<times> ustr) list \<Rightarrow> bool" where
  "cleared q [] = False"
| "cleared q ((wrong, correct) # rest) =
     (if wrong = q \<and> harmless q ((wrong, correct) # rest) then True else cleared q rest)"

text \<open>The number of characters U+00C3 and U+00E2 in a text: every pattern of the table
  holds one of them, no replacement does.\<close>

definition marks :: "ustr \<Rightarrow> nat" where
  "marks s = length (filter (\<lambda>c. c = 0xC3 \<or> c = 0xE2) s)"

definition repairing :: "(ustr \<times> ustr) list \<Rightarrow> bool" where
  "repairing table =
     list_all (\<lambda>(wrong, correct). wrong \<noteq> [] \<and> 0 < marks wrong \<and> marks correct = 0) table"

text \<open>
  The three blocks of the table in iteration order: the character entries of source lines
  21 to 37, the whole-word entries of lines 40 to 57, the symbol entries of lines 60
  to 67.
\<close>

definition character_entries :: "(ustr \<times> ustr) list" where
  "character_entries = take 15 ENCODING_FIXES"

definition word_entries :: "(ustr \<times> ustr) list" where
  "word_entries = take 18 (drop 15 ENCODING_FIXES)"

definition symbol_entries :: "(ustr \<times> ustr) list" where
  "symbol_entries = drop 33 ENCODING_FIXES"

definition umlaut_pairs :: "ustr list" where
  "umlaut_pairs = [[0xC3, 0xBC], [0xC3, 0xA4], [0xC3, 0xB6], [0xC3, 0x0178], [0xC3, 0x201E]]"

definition en_dash_targets :: "ustr list" where
  "en_dash_targets = [[0xC3, 0x0192, 0xC2, 0x2013], [0xC3, 0x2013]]"

definition settled_patterns :: "ustr list" where
  "settled_patterns =
     filter (\<lambda>q. q \<notin> set en_dash_targets) (map fst (character_entries @ symbol_entries))"

text \<open>The code points the UTF-8 encoder accepts.\<close>

definition encodable :: "nat \<Rightarrow> bool" where
  "encodable c = (c < 0xD800 \<or> 0xDFFF < c \<and> c < 0x110000)"

section \<open>Sample inputs\<close>

text \<open>
  Two files: \<open>index.php\<close> holds the UTF-8 bytes of the garbled word
  \<open>sp\<close> U+00C3 U+00A4 \<open>ter\<close>;
  \<open>about.html\<close> holds bytes that are not UTF-8 but decode as Windows-1252, to the
  text \<open>f\<close> U+00C3 U+00BC \<open>r\<close> U+00FF.
  \<open>calm_env\<close> is an environment in which no operation fails; in \<open>readonly_env\<close> the
  backup copy fails and leaves nothing behind; in \<open>full_disk_env\<close> the write fails and
  leaves the file empty. \<open>narrow_console\<close> is a console whose encoding lacks U+2192,
  U+2713 and U+2717 (Latin-1, for one): the lines that hold one of them raise. In
  \<open>unreadable_narrow_env\<close> the console is narrow and \<open>index.php\<close> cannot be read.
\<close>

definition sample_path :: path where
  "sample_path = asc ''index.php''"

definition other_path :: path where
  "other_path = asc ''about.html''"

definition spaeter_broken :: ustr where
  "spaeter_broken = asc ''sp'' @ [0xC3, 0xA4] @ asc ''ter''"

definition spaeter_fixed :: ustr where
  "spaeter_fixed = asc ''sp'' @ [0xE4] @ asc ''ter''"

definition fuer_broken :: ustr where
  "fuer_broken = asc ''f'' @ [0xC3, 0xBC] @ asc ''r'' @ [0xFF]"

definition fuer_fixed :: ustr where
  "fuer_fixed = asc ''f'' @ [0xFC] @ asc ''r'' @ [0xFF]"

definition spaeter_utf8 :: "byte list" where
  "spaeter_utf8 = [0x73, 0x70, 0xC3, 0x83, 0xC2, 0xA4, 0x74, 0x65, 0x72]"

definition fuer_cp1252 :: "byte list" where
  "fuer_cp1252 = [0x66, 0xC3, 0xBC, 0x72, 0xFF]"

definition sample_files :: filesystem where
  "sample_files = (\<lambda>p. if p = sample_path then Some spaeter_utf8
                        else if p = other_path then Some fuer_cp1252 else None)"

definition calm_env :: env where
  "calm_env =
     \<lparr>platform = Posix,
      read_raises = (\<lambda>p. False),
      copy_outcome = (\<lambda>src dst. Succeeds),
      write_outcome = (\<lambda>p. Succeeds),
      print_raises = (\<lambda>m. False),
      path_exists = (\<lambda>p. True),
      rglob = (\<lambda>p. [sample_path, other_path]),
      is_file = (\<lambda>p. True),
      path_suffix = (\<lambda>p. dropWhile (\<lambda>c. c \<noteq> 0x2E) p),
      str_lower = (\<lambda>s. s)\<rparr>"

definition readonly_env :: env where
  "readonly_env = calm_env\<lparr>copy_outcome := (\<lambda>src dst. Raises None)\<rparr>"

definition full_disk_env :: env where
  "full_disk_env = calm_env\<lparr>write_outcome := (\<lambda>p. Raises (Some []))\<rparr>"



section \<open>Strings\<close>

lemma prefix_split: "old \<noteq> [] \<Longrightarrow> prefix old (c # cs) \<Longrightarrow> c # cs = old @ drop (length old - 1) cs"
  by (cases old) (auto simp: prefix_def)

lemma count_scan_zero_iff: "sub \<noteq> [] \<Longrightarrow> count_scan sub s = 0 \<longleftrightarrow> \<not> sublist sub s"
  by (induction sub s rule: count_scan.induct) (auto simp: sublist_Cons_right)

lemma str_count_zero_iff: "sub \<noteq> [] \<Longrightarrow> str_count s sub = 0 \<longleftrightarrow> \<not> sublist sub s"
  by (simp add: str_count_def count_scan_zero_iff)

lemma replace_scan_absent: "\<not> sublist old s \<Longrightarrow> replace_scan old new s = s"
  by (induction old new s rule: replace_scan.induct) (auto simp: sublist_Cons_right)

lemma str_replace_absent: "str_count s old = 0 \<Longrightarrow> str_replace s old new = s"
  by (cases "old = []") (auto simp: str_count_def str_replace_def count_scan_zero_iff replace_scan_absent)

lemma prefix_disjoint_append:
  "prefix q (r @ x) \<Longrightarrow> set q \<inter> set r = {} \<Longrightarrow> r \<noteq> [] \<Longrightarrow> q = []"
  by (cases q; cases r) auto

lemma sublist_disjoint_append:
  "sublist q (r @ x) \<Longrightarrow> set q \<inter> set r = {} \<Longrightarrow> q \<noteq> [] \<Longrightarrow> sublist q x"
proof (induction r)
  case Nil
  then show ?case by simp
next
  case (Cons a r)
  from Cons.prems have "\<not> prefix q (a # r @ x)"
    by (cases q) auto
  with Cons.prems have "sublist q (r @ x)"
    by (simp add: sublist_Cons_right)
  with Cons show ?case by auto
qed

lemma prefix_replace_scan:
  "prefix q (replace_scan old new s) \<Longrightarrow> set q \<inter> set new = {} \<Longrightarrow> new \<noteq> [] \<Longrightarrow> prefix q s"
proof (induction old new s arbitrary: q rule: replace_scan.induct)
  case (1 old new)
  then show ?case by simp
next
  case (2 old new c cs)
  show ?case
  proof (cases "prefix old (c # cs)")
    case True
    with 2 have "q = []"
      using prefix_disjoint_append by auto
    then show ?thesis by simp
  next
    case False
    show ?thesis
    proof (cases q)
      case Nil
      then show ?thesis by simp
    next
      case (Cons a q')
      with False 2 show ?thesis by auto
    qed
  qed
qed

lemma sublist_of_drop: "sublist q (drop n s) \<Longrightarrow> sublist q s"
proof -
  assume "sublist q (drop n s)"
  then obtain ps ss where "drop n s = ps @ q @ ss"
    by (auto simp: sublist_def)
  then have "take n s @ drop n s = (take n s @ ps) @ q @ ss"
    by simp
  then have "s = (take n s @ ps) @ q @ ss"
    by (simp only: append_take_drop_id)
  then show ?thesis
    unfolding sublist_def by blast
qed

lemma sublist_replace_scan:
  "sublist q (replace_scan old new s) \<Longrightarrow> set q \<inter> set new = {} \<Longrightarrow> new \<noteq> [] \<Longrightarrow> q \<noteq> []
     \<Longrightarrow> sublist q s"
proof (induction old new s rule: replace_scan.induct)
  case (1 old new)
  then show ?case by simp
next
  case (2 old new c cs)
  show ?case
  proof (cases "prefix old (c # cs)")
    case True
    with 2 have "sublist q (replace_scan old new (drop (length old - 1) cs))"
      using sublist_disjoint_append by auto
    with True 2 have "sublist q (drop (length old - 1) cs)" by auto
    then have "sublist q cs" by (rule sublist_of_drop)
    then show ?thesis by (simp add: sublist_Cons_right)
  next
    case False
    with 2 have "prefix q (c # replace_scan old new cs) \<or> sublist q (replace_scan old new cs)"
      by (simp add: sublist_Cons_right)
    then show ?thesis
    proof
      assume "prefix q (c # replace_scan old new cs)"
      with 2 False have "prefix q (c # cs)"
        using prefix_replace_scan [of _ old new cs]
        by (cases q) auto
      then show ?thesis by (simp add: sublist_Cons_right)
    next
      assume "sublist q (replace_scan old new cs)"
      with 2 False show ?thesis by (simp add: sublist_Cons_right)
    qed
  qed
qed

lemma replace_scan_removes:
  "set old \<inter> set new = {} \<Longrightarrow> new \<noteq> [] \<Longrightarrow> old \<noteq> [] \<Longrightarrow> \<not> sublist old (replace_scan old new s)"
proof (induction old new s rule: replace_scan.induct)
  case (1 old new)
  then show ?case by simp
next
  case (2 old new c cs)
  show ?case
  proof (cases "prefix old (c # cs)")
    case True
    with 2 show ?thesis
      using sublist_disjoint_append by auto
  next
    case False
    have "\<not> prefix old (c # replace_scan old new cs)"
    proof
      assume a: "prefix old (c # replace_scan old new cs)"
      with 2 have "prefix old (c # cs)"
        using prefix_replace_scan [of _ old new cs]
        by (cases old) auto
      with False show False by simp
    qed
    with False 2 show ?thesis by (simp add: sublist_Cons_right)
  qed
qed

section \<open>The table and the pass\<close>

text \<open>
  The realised table, with the second arrow entry stored under the key of the first.
\<close>

lemma ENCODING_FIXES_items:
  "ENCODING_FIXES =
    [([0xC3, 0x0192, 0xC2, 0xBC], [0xFC]),
     ([0xC3, 0x0192, 0xC2, 0xA4], [0xE4]),
     ([0xC3, 0x0192, 0xC2, 0xB6], [0xF6]),
     ([0xC3, 0x0192, 0xC5, 0xB8], [0xDF]),
     ([0xC3, 0x0192, 0xC5, 0xA1], [0xDF]),
     ([0xC3, 0x0192, 0xC2, 0x201E], [0xC4]),
     ([0xC3, 0x0192, 0xC2, 0x2013], [0xD6]),
     ([0xC3, 0x0192, 0xC5], [0xDC]),
     ([0xC3, 0xBC], [0xFC]),
     ([0xC3, 0xA4], [0xE4]),
     ([0xC3, 0xB6], [0xF6]),
     ([0xC3, 0x0178], [0xDF]),
     ([0xC3, 0x201E], [0xC4]),
     ([0xC3, 0x2013], [0xD6]),
     ([0xC3, 0x0153], [0xDC]),
     (asc ''sp'' @ [0xC3, 0xA4] @ asc ''ter'', asc ''sp'' @ [0xE4] @ asc ''ter''),
     (asc ''m'' @ [0xC3, 0xBC] @ asc ''ssen'', asc ''m'' @ [0xFC] @ asc ''ssen''),
     (asc ''f'' @ [0xC3, 0xBC] @ asc ''r'', asc ''f'' @ [0xFC] @ asc ''r''),
     ([0xC3, 0xBC] @ asc ''ber'', [0xFC] @ asc ''ber''),
     (asc ''erf'' @ [0xC3, 0xBC] @ asc ''llt'', asc ''erf'' @ [0xFC] @ asc ''llt''),
     (asc ''ausf'' @ [0xC3, 0xBC] @ asc ''llen'', asc ''ausf'' @ [0xFC] @ asc ''llen''),
     (asc ''zur'' @ [0xC3, 0xBC] @ asc ''ck'', asc ''zur'' @ [0xFC] @ asc ''ck''),
     (asc ''Gr'' @ [0xC3, 0xBC, 0xC3, 0x0178] @ asc ''en'', asc ''Gr'' @ [0xFC, 0xDF] @ asc ''en''),
     (asc ''best'' @ [0xC3, 0xA4] @ asc ''tigen'', asc ''best'' @ [0xE4] @ asc ''tigen''),
     (asc ''Ung'' @ [0xC3, 0xBC] @ asc ''ltig'', asc ''Ung'' @ [0xFC] @ asc ''ltig''),
     (asc ''g'' @ [0xC3, 0xBC] @ asc ''ltig'', asc ''g'' @ [0xFC] @ asc ''ltig''),
     (asc ''St'' @ [0xC3, 0xA4] @ asc ''rke'', asc ''St'' @ [0xE4] @ asc ''rke''),
     (asc ''Gro'' @ [0xC3, 0x0178] @ asc ''buchstabe'', asc ''Gro'' @ [0xDF] @ asc ''buchstabe''),
     (asc ''w'' @ [0xC3, 0xA4] @ asc ''hlen'', asc ''w'' @ [0xE4] @ asc ''hlen''),
     (asc ''Ben'' @ [0xC3, 0xB6] @ asc ''tigt'', asc ''Ben'' @ [0xF6] @ asc ''tigt''),
     (asc ''Funktionalit'' @ [0xC3, 0xA4] @ asc ''t'', asc ''Funktionalit'' @ [0xE4] @ asc ''t''),
     (asc ''Pers'' @ [0xC3, 0xB6] @ asc ''nliche'', asc ''Pers'' @ [0xF6] @ asc ''nliche''),
     (asc ''VOLLST'' @ [0xC3, 0x201E] @ asc ''NDIG'', asc ''VOLLST'' @ [0xC4] @ asc ''NDIG''),
     ([0xE2, 0x201A, 0xAC], [0x20AC]),
     ([0xE2, 0x20AC, 0x0153], [0x201C]),
     ([0xE2, 0x20AC, 0xFFFD], [0x201D]),
     ([0xE2, 0x20AC, 0x2122], [0x2019]),
     ([0xE2, 0x20AC, 0x201C], [0x2013]),
     ([0xE2, 0x20AC, 0x201D], [0x2014]),
     ([0xE2, 0x2020, 0x2019], [0x2192])]"
  by (simp add: ENCODING_FIXES_def ENCODING_FIXES_literal_def dict_literal_def asc_def)

lemma apply_fixes_append:
  "apply_fixes (A @ B) t n out =
     (case apply_fixes A t n out of (t1, n1, out1) \<Rightarrow> apply_fixes B t1 n1 out1)"
  by (induction A t n out rule: apply_fixes.induct) (simp_all add: Let_def)

lemma apply_fixes_spec:
  "(fst (apply_fixes table t n out), fst (snd (apply_fixes table t n out))) =
     foldl (\<lambda>(cur, total) (pattern, replacement).
              (str_replace cur pattern replacement, total + str_count cur pattern))
           (t, n) table"
  by (induction table t n out rule: apply_fixes.induct)
     (simp_all add: Let_def str_replace_absent)

lemma apply_fixes_quiet:
  "list_all (\<lambda>(wrong, correct). str_count t wrong = 0) table \<Longrightarrow>
     apply_fixes table t n out = (t, n, out)"
  by (induction table t n out rule: apply_fixes.induct) (simp_all add: Let_def)

lemma str_replace_keeps_absent:
  assumes "\<not> sublist q t" "q \<noteq> []" "correct \<noteq> []" "set q \<inter> set correct = {}" "wrong \<noteq> []"
  shows "\<not> sublist q (str_replace t wrong correct)"
  using assms sublist_replace_scan [of q wrong correct t]
  by (auto simp: str_replace_def)

lemma str_replace_clears:
  assumes "correct \<noteq> []" "set wrong \<inter> set correct = {}" "wrong \<noteq> []"
  shows "\<not> sublist wrong (str_replace t wrong correct)"
  using assms replace_scan_removes [of wrong correct t]
  by (auto simp: str_replace_def)

lemma harmless_keeps_absent:
  "harmless q table \<Longrightarrow> list_all (\<lambda>(wrong, correct). wrong \<noteq> []) table \<Longrightarrow> q \<noteq> []
     \<Longrightarrow> \<not> sublist q t \<Longrightarrow> \<not> sublist q (fst (apply_fixes table t n out))"
proof (induction table t n out rule: apply_fixes.induct)
  case (1 content total_replacements out)
  then show ?case by simp
next
  case (2 wrong correct rest content total_replacements out)
  from "2.prems" have h: "harmless q rest" "correct \<noteq> []" "set q \<inter> set correct = {}"
    "wrong \<noteq> []" "list_all (\<lambda>(wrong, correct). wrong \<noteq> []) rest"
    by (simp_all add: harmless_def)
  show ?case
  proof (cases "str_count content wrong > 0")
    case True
    have "\<not> sublist q (str_replace content wrong correct)"
      using "2.prems" h by (intro str_replace_keeps_absent) simp_all
    with True "2.IH"(1) [OF refl True h(1) h(5) "2.prems"(3)] show ?thesis
      by (simp add: Let_def)
  next
    case False
    with "2.IH"(2) [OF refl False h(1) h(5) "2.prems"(3) "2.prems"(4)] show ?thesis
      by (simp add: Let_def)
  qed
qed

lemma cleared_absent:
  "cleared q table \<Longrightarrow> list_all (\<lambda>(wrong, correct). wrong \<noteq> []) table \<Longrightarrow> q \<noteq> []
     \<Longrightarrow> \<not> sublist q (fst (apply_fixes table t n out))"
proof (induction table t n out rule: apply_fixes.induct)
  case (1 content total_replacements out)
  then show ?case by simp
next
  case (2 wrong correct rest content total_replacements out)
  from "2.prems" have ne: "wrong \<noteq> []" "list_all (\<lambda>(wrong, correct). wrong \<noteq> []) rest"
    by simp_all
  show ?case
  proof (cases "wrong = q \<and> harmless q ((wrong, correct) # rest)")
    case True
    then have h: "harmless q rest" "correct \<noteq> []" "set q \<inter> set correct = {}" "wrong = q"
      by (simp_all add: harmless_def)
    show ?thesis
    proof (cases "str_count content wrong > 0")
      case pos: True
      have "\<not> sublist q (str_replace content wrong correct)"
        using h ne str_replace_clears [of correct wrong content] by simp
      then have "\<not> sublist q (fst (apply_fixes rest (str_replace content wrong correct)
                   (total_replacements + str_count content wrong)
                   (out @ [Fix_line wrong correct (str_count content wrong)])))"
        using h ne "2.prems"(3) by (intro harmless_keeps_absent) simp_all
      with pos show ?thesis by (simp add: Let_def)
    next
      case zero: False
      then have "\<not> sublist q content"
        using h ne str_count_zero_iff [of wrong content] by simp
      then have "\<not> sublist q (fst (apply_fixes rest content total_replacements out))"
        using h ne "2.prems"(3) by (intro harmless_keeps_absent) simp_all
      with zero show ?thesis by (simp add: Let_def)
    qed
  next
    case False
    with "2.prems" have c: "cleared q rest" by (simp split: if_splits)
    show ?thesis
    proof (cases "str_count content wrong > 0")
      case True
      with "2.IH"(1) [OF refl True c ne(2) "2.prems"(3)] show ?thesis
        by (simp add: Let_def)
    next
      case False
      with "2.IH"(2) [OF refl False c ne(2) "2.prems"(3)] show ?thesis
        by (simp add: Let_def)
    qed
  qed
qed

lemma marks_append: "marks (a @ b) = marks a + marks b"
  by (simp add: marks_def)

lemma marks_Cons: "marks (c # s) = (if c = 0xC3 \<or> c = 0xE2 then 1 else 0) + marks s"
  by (simp add: marks_def)

lemma marks_replace_scan:
  "old \<noteq> [] \<Longrightarrow> 0 < marks old \<Longrightarrow> marks new = 0 \<Longrightarrow>
     marks (replace_scan old new s) + count_scan old s \<le> marks s"
proof (induction old new s rule: replace_scan.induct)
  case (1 old new)
  then show ?case by simp
next
  case (2 old new c cs)
  show ?case
  proof (cases "prefix old (c # cs)")
    case True
    then have split: "c # cs = old @ drop (length old - 1) cs"
      using "2.prems"(1) by (rule prefix_split [rotated])
    have "marks (c # cs) = marks old + marks (drop (length old - 1) cs)"
      by (subst split) (rule marks_append)
    moreover have "marks (replace_scan old new (drop (length old - 1) cs))
        + count_scan old (drop (length old - 1) cs) \<le> marks (drop (length old - 1) cs)"
      using True 2 by simp
    ultimately show ?thesis
      using True "2.prems" by (simp add: marks_append)
  next
    case False
    with 2 show ?thesis by (simp add: marks_Cons)
  qed
qed

lemma marks_str_replace:
  "old \<noteq> [] \<Longrightarrow> 0 < marks old \<Longrightarrow> marks new = 0 \<Longrightarrow>
     marks (str_replace s old new) + str_count s old \<le> marks s"
  by (simp add: str_replace_def str_count_def marks_replace_scan)

lemma marks_apply_fixes:
  "repairing table \<Longrightarrow>
     marks (fst (apply_fixes table t n out)) + fst (snd (apply_fixes table t n out)) \<le> marks t + n"
proof (induction table t n out rule: apply_fixes.induct)
  case (1 content total_replacements out)
  then show ?case by simp
next
  case (2 wrong correct rest content total_replacements out)
  from "2.prems" have r: "repairing rest" "wrong \<noteq> []" "0 < marks wrong" "marks correct = 0"
    by (simp_all add: repairing_def)
  show ?case
  proof (cases "str_count content wrong > 0")
    case True
    from marks_str_replace [OF r(2) r(3) r(4), of content] "2.IH"(1) [OF refl True r(1)] True
    show ?thesis by (simp add: Let_def)
  next
    case False
    with "2.IH"(2) [OF refl False r(1)] show ?thesis by (simp add: Let_def)
  qed
qed

lemma total_mono: "n \<le> fst (snd (apply_fixes table t n out))"
proof (induction table t n out rule: apply_fixes.induct)
  case (1 content total_replacements out)
  then show ?case by simp
next
  case (2 wrong correct rest content total_replacements out)
  show ?case
  proof (cases "str_count content wrong > 0")
    case True
    with "2.IH"(1) [OF refl True] show ?thesis by (simp add: Let_def)
  next
    case False
    with "2.IH"(2) [OF refl False] show ?thesis by (simp add: Let_def)
  qed
qed

lemma total_same_text_same:
  "fst (snd (apply_fixes table t n out)) = n \<Longrightarrow> fst (apply_fixes table t n out) = t"
proof (induction table t n out rule: apply_fixes.induct)
  case (1 content total_replacements out)
  then show ?case by simp
next
  case (2 wrong correct rest content total_replacements out)
  show ?case
  proof (cases "str_count content wrong > 0")
    case True
    have "total_replacements + str_count content wrong
            \<le> fst (snd (apply_fixes rest (str_replace content wrong correct)
                 (total_replacements + str_count content wrong)
                 (out @ [Fix_line wrong correct (str_count content wrong)])))"
      by (rule total_mono)
    with True "2.prems" show ?thesis by (simp add: Let_def)
  next
    case False
    with "2.IH"(2) [OF refl False] "2.prems" show ?thesis by (simp add: Let_def)
  qed
qed

lemma changed_iff_positive:
  assumes "repairing table"
  shows "fst (apply_fixes table t 0 out) \<noteq> t \<longleftrightarrow> 0 < fst (snd (apply_fixes table t 0 out))"
proof
  assume "fst (apply_fixes table t 0 out) \<noteq> t"
  then show "0 < fst (snd (apply_fixes table t 0 out))"
    using total_same_text_same [of table t 0 out] by auto
next
  assume pos: "0 < fst (snd (apply_fixes table t 0 out))"
  show "fst (apply_fixes table t 0 out) \<noteq> t"
  proof
    assume "fst (apply_fixes table t 0 out) = t"
    with marks_apply_fixes [OF assms, of t 0 out] pos show False by simp
  qed
qed

lemma repairing_ENCODING_FIXES: "repairing ENCODING_FIXES"
  by (simp add: ENCODING_FIXES_items repairing_def marks_def asc_def)

lemma count_list_replace_scan:
  "x \<notin> set old \<Longrightarrow> x \<notin> set new \<Longrightarrow> old \<noteq> [] \<Longrightarrow>
     count_list (replace_scan old new s) x = count_list s x"
proof (induction old new s rule: replace_scan.induct)
  case (1 old new)
  then show ?case by simp
next
  case (2 old new c cs)
  show ?case
  proof (cases "prefix old (c # cs)")
    case True
    then have split: "c # cs = old @ drop (length old - 1) cs"
      using "2.prems"(3) by (rule prefix_split [rotated])
    have "count_list (c # cs) x = count_list old x + count_list (drop (length old - 1) cs) x"
      by (subst split) simp
    with True 2 show ?thesis by (simp add: count_list_0_iff [THEN iffD2])
  next
    case False
    with 2 show ?thesis by simp
  qed
qed

lemma ENCODING_FIXES_blocks:
  "ENCODING_FIXES = character_entries @ word_entries @ symbol_entries"
  by (simp add: character_entries_def word_entries_def symbol_entries_def ENCODING_FIXES_items)

lemma covered_entries_dormant:
  assumes absent: "list_all (\<lambda>q. \<not> sublist q t) qs"
    and covered: "list_all (\<lambda>(wrong, correct). wrong \<noteq> [] \<and> list_ex (\<lambda>q. sublist q wrong) qs) table"
  shows "list_all (\<lambda>(wrong, correct). str_count t wrong = 0) table"
proof -
  have "str_count t wrong = 0" if "(wrong, correct) \<in> set table" for wrong correct
  proof -
    from covered that have ne: "wrong \<noteq> []" and "list_ex (\<lambda>q. sublist q wrong) qs"
      by (auto simp: list_all_iff)
    then obtain q where q: "q \<in> set qs" "sublist q wrong"
      by (auto simp: list_ex_iff)
    with absent have "\<not> sublist q t"
      by (auto simp: list_all_iff)
    with q have "\<not> sublist wrong t"
      using sublist_order.order_trans by blast
    with ne show ?thesis
      by (simp add: str_count_zero_iff)
  qed
  then show ?thesis
    by (auto simp: list_all_iff)
qed

lemma cleared_all_absent:
  assumes "list_all (\<lambda>q. q \<noteq> [] \<and> cleared q table) qs"
    and "list_all (\<lambda>(wrong, correct). wrong \<noteq> []) table"
  shows "list_all (\<lambda>q. \<not> sublist q (fst (apply_fixes table t n out))) qs"
  using assms cleared_absent [of _ table t n out]
  by (auto simp: list_all_iff)

lemma character_entries_nonempty: "list_all (\<lambda>(wrong, correct). wrong \<noteq> []) character_entries"
  by (simp add: character_entries_def ENCODING_FIXES_items)

lemma ENCODING_FIXES_nonempty: "list_all (\<lambda>(wrong, correct). wrong \<noteq> []) ENCODING_FIXES"
  by (simp add: ENCODING_FIXES_items asc_def)

lemma umlaut_pairs_cleared:
  "list_all (\<lambda>q. q \<noteq> [] \<and> cleared q character_entries) umlaut_pairs"
  by (simp add: umlaut_pairs_def character_entries_def ENCODING_FIXES_items harmless_def)

lemma word_entries_covered:
  "list_all (\<lambda>(wrong, correct). wrong \<noteq> [] \<and> list_ex (\<lambda>q. sublist q wrong) umlaut_pairs)
     word_entries"
  by (simp add: umlaut_pairs_def word_entries_def ENCODING_FIXES_items asc_def sublist_Cons_right)

lemma word_entries_dormant:
  "apply_fixes word_entries (fst (apply_fixes character_entries t n out)) n' out' =
     (fst (apply_fixes character_entries t n out), n', out')"
  by (intro apply_fixes_quiet covered_entries_dormant [OF _ word_entries_covered]
        cleared_all_absent [OF umlaut_pairs_cleared character_entries_nonempty])

lemma word_entries_never_fire:
  "apply_fixes ENCODING_FIXES t n out = apply_fixes (character_entries @ symbol_entries) t n out"
proof -
  obtain t1 n1 out1 where a: "apply_fixes character_entries t n out = (t1, n1, out1)"
    by (cases "apply_fixes character_entries t n out")
  have "apply_fixes word_entries t1 n1 out1 = (t1, n1, out1)"
    using word_entries_dormant [of t n out n1 out1] a by simp
  with a show ?thesis
    by (simp add: ENCODING_FIXES_blocks apply_fixes_append)
qed

lemma settled_patterns_cleared:
  "list_all (\<lambda>q. q \<noteq> [] \<and> cleared q ENCODING_FIXES) settled_patterns"
  by (simp add: settled_patterns_def en_dash_targets_def character_entries_def
        symbol_entries_def ENCODING_FIXES_items harmless_def asc_def)

lemma ENCODING_FIXES_covered:
  "list_all (\<lambda>(wrong, correct). wrong \<noteq> [] \<and>
       list_ex (\<lambda>q. sublist q wrong) (en_dash_targets @ settled_patterns)) ENCODING_FIXES"
  by (simp add: settled_patterns_def en_dash_targets_def character_entries_def
        symbol_entries_def ENCODING_FIXES_items asc_def sublist_Cons_right)

lemma second_pass_quiet:
  assumes "str_count (fst (apply_fixes ENCODING_FIXES t n out)) [0xC3, 0x0192, 0xC2, 0x2013] = 0"
    and "str_count (fst (apply_fixes ENCODING_FIXES t n out)) [0xC3, 0x2013] = 0"
  shows "apply_fixes ENCODING_FIXES (fst (apply_fixes ENCODING_FIXES t n out)) n' out' =
           (fst (apply_fixes ENCODING_FIXES t n out), n', out')"
proof -
  let ?t = "fst (apply_fixes ENCODING_FIXES t n out)"
  have "list_all (\<lambda>q. \<not> sublist q ?t) en_dash_targets"
    using assms by (simp add: en_dash_targets_def str_count_zero_iff)
  moreover have "list_all (\<lambda>q. \<not> sublist q ?t) settled_patterns"
    by (rule cleared_all_absent [OF settled_patterns_cleared ENCODING_FIXES_nonempty])
  ultimately have "list_all (\<lambda>q. \<not> sublist q ?t) (en_dash_targets @ settled_patterns)"
    by simp
  then show ?thesis
    by (intro apply_fixes_quiet covered_entries_dormant [OF _ ENCODING_FIXES_covered])
qed

lemma count_list_str_replace:
  "x \<notin> set old \<Longrightarrow> x \<notin> set new \<Longrightarrow> old \<noteq> [] \<Longrightarrow>
     count_list (str_replace s old new) x = count_list s x"
  by (simp add: str_replace_def count_list_replace_scan)

lemma count_list_apply_fixes:
  "list_all (\<lambda>(wrong, correct). wrong \<noteq> [] \<and> x \<notin> set wrong \<and> x \<notin> set correct) table \<Longrightarrow>
     count_list (fst (apply_fixes table t n out)) x = count_list t x"
proof (induction table t n out rule: apply_fixes.induct)
  case (1 content total_replacements out)
  then show ?case by simp
next
  case (2 wrong correct rest content total_replacements out)
  from "2.prems" have r:
    "list_all (\<lambda>(wrong, correct). wrong \<noteq> [] \<and> x \<notin> set wrong \<and> x \<notin> set correct) rest"
    "wrong \<noteq> []" "x \<notin> set wrong" "x \<notin> set correct"
    by simp_all
  show ?case
  proof (cases "str_count content wrong > 0")
    case True
    with "2.IH"(1) [OF refl True r(1)] count_list_str_replace [OF r(3) r(4) r(2), of content]
    show ?thesis by (simp add: Let_def)
  next
    case False
    with "2.IH"(2) [OF refl False r(1)] show ?thesis by (simp add: Let_def)
  qed
qed

lemma no_left_arrow_in_table:
  "list_all (\<lambda>(wrong, correct). wrong \<noteq> [] \<and> 0x2190 \<notin> set wrong \<and> 0x2190 \<notin> set correct)
     ENCODING_FIXES"
  by (simp add: ENCODING_FIXES_items asc_def)

lemma arrow_cleared: "cleared [0xE2, 0x2020, 0x2019] ENCODING_FIXES"
  by (simp add: ENCODING_FIXES_items asc_def harmless_def)

lemma arrow_last:
  "ENCODING_FIXES = butlast ENCODING_FIXES @ [([0xE2, 0x2020, 0x2019], [0x2192])]"
  by (simp add: ENCODING_FIXES_items)

lemma arrow_step:
  "fst (apply_fixes ENCODING_FIXES t n out) =
     str_replace (fst (apply_fixes (butlast ENCODING_FIXES) t n out)) [0xE2, 0x2020, 0x2019] [0x2192]"
proof -
  obtain t1 n1 out1 where a: "apply_fixes (butlast ENCODING_FIXES) t n out = (t1, n1, out1)"
    by (cases "apply_fixes (butlast ENCODING_FIXES) t n out")
  have "fst (apply_fixes (butlast ENCODING_FIXES @ [([0xE2, 0x2020, 0x2019], [0x2192])]) t n out) =
     str_replace t1 [0xE2, 0x2020, 0x2019] [0x2192]"
    using a by (simp add: apply_fixes_append Let_def str_replace_absent)
  with a show ?thesis
    using arrow_last by simp
qed

lemma literal_arrows:
  "ENCODING_FIXES_literal ! 39 = ([0xE2, 0x2020, 0x2019], [0x2190]) \<and>
   ENCODING_FIXES_literal ! 40 = ([0xE2, 0x2020, 0x2019], [0x2192]) \<and>
   length ENCODING_FIXES_literal = 41 \<and> length ENCODING_FIXES = 40 \<and>
   map_of ENCODING_FIXES [0xE2, 0x2020, 0x2019] = Some [0x2192] \<and>
   ([0xE2, 0x2020, 0x2019], [0x2190]) \<notin> set ENCODING_FIXES"
  by (simp add: ENCODING_FIXES_items ENCODING_FIXES_literal_def asc_def)

section \<open>The codecs\<close>

lemma byte_bound: "unat (b :: byte) < 256"
proof -
  have "unat b < 2 ^ LENGTH(8)"
    by (rule unsigned_less)
  then show ?thesis by simp
qed

lemma utf8_encode_char_total: "encodable c \<Longrightarrow> utf8_encode_char c \<noteq> None"
  by (auto simp: encodable_def utf8_encode_char_def)

lemma utf8_encode_total: "list_all encodable t \<Longrightarrow> utf8_encode t \<noteq> None"
  by (induction t) (auto simp: utf8_encode_char_total split: option.splits)

lemma cp1252_char_encodable: "cp1252_char b = Some c \<Longrightarrow> c < 0xD800"
proof -
  assume a: "cp1252_char b = Some c"
  have hi: "list_all (\<lambda>x. case x of None \<Rightarrow> True | Some c \<Rightarrow> c < 0xD800) cp1252_high"
    by (simp add: cp1252_high_def)
  have len: "length cp1252_high = 32"
    by (simp add: cp1252_high_def)
  have lt: "unat b < 256"
    by (rule byte_bound)
  show ?thesis
  proof (cases "0x80 \<le> unat b \<and> unat b < 0xA0")
    case True
    then have "unat b - 0x80 < length cp1252_high"
      unfolding len by arith
    then have "cp1252_high ! (unat b - 0x80) \<in> set cp1252_high"
      by (rule nth_mem)
    with hi a True show ?thesis
      by (auto simp: cp1252_char_def list_all_iff split: option.splits)
  next
    case False
    with a lt show ?thesis
      by (auto simp: cp1252_char_def)
  qed
qed

lemma cp1252_decode_encodable: "cp1252_decode bs = Some t \<Longrightarrow> list_all encodable t"
proof (induction bs arbitrary: t)
  case Nil
  then show ?case by simp
next
  case (Cons b bs)
  then show ?case
    by (auto simp: encodable_def split: option.splits dest: cp1252_char_encodable)
qed

lemma latin1_decode_encodable: "latin1_decode bs = Some t \<Longrightarrow> list_all encodable t"
proof -
  assume "latin1_decode bs = Some t"
  then have t: "t = map unat bs"
    by (simp add: latin1_decode_def)
  have "unat b < 0xD800" for b :: byte
    using byte_bound [of b] by simp
  then show ?thesis
    unfolding t by (simp add: list_all_iff encodable_def)
qed

lemma utf8_decode_encodable: "utf8_decode bs = Some t \<Longrightarrow> list_all encodable t"
proof (induction bs arbitrary: t rule: utf8_decode.induct)
  case 1
  then show ?case by simp
next
  case (2 b0 bs)
  let ?n = "unat b0"
  consider (one) "?n < 0x80"
    | (two) "0x80 \<le> ?n" "0xC2 \<le> ?n \<and> ?n \<le> 0xDF"
    | (three) "0x80 \<le> ?n" "\<not> (0xC2 \<le> ?n \<and> ?n \<le> 0xDF)" "0xE0 \<le> ?n \<and> ?n \<le> 0xEF"
    | (four) "0x80 \<le> ?n" "\<not> (0xC2 \<le> ?n \<and> ?n \<le> 0xDF)" "\<not> (0xE0 \<le> ?n \<and> ?n \<le> 0xEF)"
        "0xF0 \<le> ?n \<and> ?n \<le> 0xF4"
    | (bad) "0x80 \<le> ?n" "\<not> (0xC2 \<le> ?n \<and> ?n \<le> 0xDF)" "\<not> (0xE0 \<le> ?n \<and> ?n \<le> 0xEF)"
        "\<not> (0xF0 \<le> ?n \<and> ?n \<le> 0xF4)"
    by linarith
  then show ?case
  proof cases
    case one
    with "2.prems" obtain t' where t': "utf8_decode bs = Some t'" "t = ?n # t'"
      by (auto simp: Let_def)
    from "2.IH"(1) [OF refl one t'(1)] have "list_all encodable t'" .
    moreover have "encodable ?n"
      using one by (simp add: encodable_def)
    ultimately show ?thesis using t' by simp
  next
    case two
    with "2.prems" obtain b1 bs1 t' where p: "bs = b1 # bs1" "in_range 0x80 0xBF b1"
      "utf8_decode bs1 = Some t'" "t = ((?n - 0xC0) * 64 + (unat b1 - 0x80)) # t'"
      by (auto simp: Let_def split: list.splits if_splits)
    have "list_all encodable t'"
      using "2.IH"(2) [OF refl _ two(2) p(1) p(2) p(3)] two by simp
    moreover have "encodable ((?n - 0xC0) * 64 + (unat b1 - 0x80))"
      using two p(2) unfolding encodable_def in_range_def by linarith
    ultimately show ?thesis using p by simp
  next
    case three
    with "2.prems" obtain b1 b2 bs2 t' where p: "bs = b1 # b2 # bs2"
      "in_range (second_lo ?n) (second_hi ?n) b1" "in_range 0x80 0xBF b2"
      "utf8_decode bs2 = Some t'"
      "t = ((?n - 0xE0) * 4096 + (unat b1 - 0x80) * 64 + (unat b2 - 0x80)) # t'"
      by (auto simp: Let_def split: list.splits if_splits)
    have "list_all encodable t'"
      using "2.IH"(3) [OF refl _ three(2) three(3) p(1) refl _ p(4)] three p by simp
    moreover have "encodable ((?n - 0xE0) * 4096 + (unat b1 - 0x80) * 64 + (unat b2 - 0x80))"
      using three p(2) p(3) unfolding encodable_def in_range_def second_lo_def second_hi_def
      by (auto split: if_splits)
    ultimately show ?thesis using p by simp
  next
    case four
    with "2.prems" obtain b1 b2 b3 bs3 t' where p: "bs = b1 # b2 # b3 # bs3"
      "in_range (second_lo ?n) (second_hi ?n) b1" "in_range 0x80 0xBF b2" "in_range 0x80 0xBF b3"
      "utf8_decode bs3 = Some t'"
      "t = ((?n - 0xF0) * 262144 + (unat b1 - 0x80) * 4096 + (unat b2 - 0x80) * 64
              + (unat b3 - 0x80)) # t'"
      by (auto simp: Let_def split: list.splits if_splits)
    have "list_all encodable t'"
      using "2.IH"(4) [OF refl _ four(2) four(3) four(4) p(1) refl refl _ p(5)] four p by simp
    moreover have "encodable ((?n - 0xF0) * 262144 + (unat b1 - 0x80) * 4096
        + (unat b2 - 0x80) * 64 + (unat b3 - 0x80))"
      using four p(2) p(3) p(4) unfolding encodable_def in_range_def second_lo_def second_hi_def
      by (auto split: if_splits)
    ultimately show ?thesis using p by simp
  next
    case bad
    with "2.prems" show ?thesis by (simp add: Let_def)
  qed
qed










section \<open>The decoding loop\<close>

lemma decode_latin1_total: "decode ISO_8859_1 raw = Some (map unat raw)"
  by (simp add: latin1_decode_def)

lemma try_encodings_first:
  "open_read e fs p = Inr raw \<Longrightarrow>
     try_encodings e fs p encs =
       Inr (case find (\<lambda>enc. decode enc raw \<noteq> None) encs of
              None \<Rightarrow> None
            | Some enc \<Rightarrow> map_option (\<lambda>t. (universal_newlines t, enc)) (decode enc raw))"
  by (induction encs) (auto split: option.splits)

lemma try_encodings_result:
  "open_read e fs p = Inr raw \<Longrightarrow>
     \<exists>t enc. try_encodings e fs p encodings = Inr (Some (universal_newlines t, enc)) \<and>
       decode enc raw = Some t \<and> enc \<noteq> CP1252"
  by (cases "utf8_decode raw"; cases "cp1252_decode raw")
     (auto simp: encodings_def latin1_decode_def)

lemma open_read_disj:
  "open_read e fs p = Inl OSError_read \<or> (\<exists>raw. open_read e fs p = Inr raw \<and> fs p = Some raw)"
  by (simp add: open_read_def split: option.splits)

lemma open_read_cases:
  obtains (raises) "open_read e fs p = Inl OSError_read"
  | (reads) raw where "open_read e fs p = Inr raw" "fs p = Some raw"
  using open_read_disj [of e fs p] by blast

lemma try_encodings_never_exhausted: "try_encodings e fs p encodings \<noteq> Inr None"
proof (cases rule: open_read_cases [of e fs p])
  case raises
  then show ?thesis by (simp add: encodings_def)
next
  case (reads raw)
  with try_encodings_result [of e fs p raw] show ?thesis by auto
qed

section \<open>Texts that can be written\<close>

text \<open>
  Every decoded text, and every text the pass makes of it, consists of code points the
  UTF-8 encoder accepts: the write of \<open>process_file\<close> never raises \<open>UnicodeEncodeError\<close>.
\<close>

lemma set_universal_newlines: "set (universal_newlines t) \<subseteq> insert 0x0A (set t)"
  by (induction t rule: universal_newlines.induct) auto

lemma decode_encodable: "decode enc raw = Some t \<Longrightarrow> list_all encodable t"
  by (cases enc)
     (auto dest: utf8_decode_encodable cp1252_decode_encodable latin1_decode_encodable)

lemma encodable_newline: "encodable 0x0A" "encodable 0x0D"
  by (simp_all add: encodable_def)

lemma universal_newlines_encodable:
  "list_all encodable t \<Longrightarrow> list_all encodable (universal_newlines t)"
  using set_universal_newlines [of t] encodable_newline
  by (auto simp: list_all_iff)

lemma try_encodings_encodable:
  assumes "try_encodings e fs p encodings = Inr (Some (t, enc))"
  shows "list_all encodable t"
proof (cases rule: open_read_cases [of e fs p])
  case raises
  with assms show ?thesis by (simp add: encodings_def)
next
  case (reads raw)
  from try_encodings_result [OF reads(1)] assms obtain t' where
    "t = universal_newlines t'" "decode enc raw = Some t'"
    by auto
  then show ?thesis
    by (auto intro: universal_newlines_encodable decode_encodable)
qed

lemma set_replace_scan: "set (replace_scan old new s) \<subseteq> set s \<union> set new"
proof (induction old new s rule: replace_scan.induct)
  case (1 old new)
  then show ?case by simp
next
  case (2 old new c cs)
  have "set (drop (length old - 1) cs) \<subseteq> set cs"
    by (rule set_drop_subset)
  with 2 show ?case by auto
qed

lemma set_str_replace: "set (str_replace s old new) \<subseteq> set s \<union> set new"
  using set_replace_scan [of old new s]
  by (auto simp: str_replace_def)

lemma str_replace_encodable:
  "list_all encodable s \<Longrightarrow> list_all encodable new \<Longrightarrow> list_all encodable (str_replace s old new)"
  using set_str_replace [of s old new]
  by (auto simp: list_all_iff)

lemma apply_fixes_encodable:
  "list_all (\<lambda>(wrong, correct). list_all encodable correct) table \<Longrightarrow> list_all encodable t
     \<Longrightarrow> list_all encodable (fst (apply_fixes table t n out))"
proof (induction table t n out rule: apply_fixes.induct)
  case (1 content total_replacements out)
  then show ?case by simp
next
  case (2 wrong correct rest content total_replacements out)
  from "2.prems" have r: "list_all (\<lambda>(wrong, correct). list_all encodable correct) rest"
    "list_all encodable correct"
    by simp_all
  show ?case
  proof (cases "str_count content wrong > 0")
    case True
    have "list_all encodable (str_replace content wrong correct)"
      using "2.prems"(2) r(2) by (rule str_replace_encodable)
    with "2.IH"(1) [OF refl True r(1)] True show ?thesis
      by (simp add: Let_def)
  next
    case False
    with "2.IH"(2) [OF refl False r(1) "2.prems"(2)] show ?thesis
      by (simp add: Let_def)
  qed
qed

lemma ENCODING_FIXES_encodable:
  "list_all (\<lambda>(wrong, correct). list_all encodable correct) ENCODING_FIXES"
  by (simp add: ENCODING_FIXES_items asc_def encodable_def)

lemma write_newlines_encodable:
  "list_all encodable s \<Longrightarrow> list_all encodable (write_newlines pf s)"
  by (cases pf) (auto simp: write_newlines_def list_all_iff encodable_newline)

lemma content_always_encodes:
  assumes "try_encodings e fs p encodings = Inr (Some (t, enc))"
  shows "utf8_encode (write_newlines pf (fst (apply_fixes ENCODING_FIXES t n out))) \<noteq> None"
  by (intro utf8_encode_total write_newlines_encodable apply_fixes_encodable
        ENCODING_FIXES_encodable try_encodings_encodable [OF assms])

section \<open>The outcomes of \<open>process_file\<close>\<close>


lemma print_lines_quiet:
  "list_all (\<lambda>m. \<not> print_raises e m) ms \<Longrightarrow> print_lines e ms = (ms, None)"
  by (induction ms) simp_all

lemma print_lines_all_quiet: "\<forall>m. \<not> print_raises e m \<Longrightarrow> print_lines e ms = (ms, None)"
  by (rule print_lines_quiet) (simp add: list_all_iff)

lemma print_lines_subset: "set (fst (print_lines e ms)) \<subseteq> set ms"
  by (induction ms) (auto split: prod.splits)

lemma process_file_try_unreadable:
  "try_encodings e fs p encodings = Inl err \<Longrightarrow> process_file_try e fs p dry = (fs, [], Inl err)"
  by (simp add: process_file_try_def)

lemma process_file_try_print_failed:
  assumes "try_encodings e fs p encodings = Inr (Some (orig, enc))"
    and "apply_fixes ENCODING_FIXES orig 0 [] = (content, tot, lines)"
    and "print_lines e lines = (out, Some err)"
  shows "process_file_try e fs p dry = (fs, out, Inl err)"
  using assms by (simp add: process_file_try_def)

lemma process_file_try_decoded:
  assumes "try_encodings e fs p encodings = Inr (Some (orig, enc))"
    and "apply_fixes ENCODING_FIXES orig 0 [] = (content, tot, lines)"
    and "print_lines e lines = (out, None)"
  shows "process_file_try e fs p dry =
     (if content \<noteq> orig then
        if \<not> dry then
          (case copy2 e fs p (backup_path p) of
             (fs1, Some err) \<Rightarrow> (fs1, out, Inl err)
           | (fs1, None) \<Rightarrow>
               (case write_text e fs1 p content of
                  (fs2, Some err) \<Rightarrow> (fs2, out, Inl err)
                | (fs2, None) \<Rightarrow>
                    if print_raises e (Repaired_line tot) then (fs2, out, Inl Print_failed)
                    else (fs2, out @ [Repaired_line tot], Inr (tot, True))))
        else if print_raises e (Would_repair_line tot) then (fs, out, Inl Print_failed)
             else (fs, out @ [Would_repair_line tot], Inr (tot, True))
      else (fs, out, Inr (0, False)))"
  using assms by (simp add: process_file_try_def)

lemma try_encodings_cases:
  obtains (unreadable) "try_encodings e fs p encodings = Inl OSError_read"
  | (decoded) raw t enc where "fs p = Some raw" "decode enc raw = Some t" "enc \<noteq> CP1252"
      "try_encodings e fs p encodings = Inr (Some (universal_newlines t, enc))"
proof (cases rule: open_read_cases [of e fs p])
  case raises
  then have "try_encodings e fs p encodings = Inl OSError_read"
    by (simp add: encodings_def)
  then show ?thesis by (rule unreadable)
next
  case (reads raw)
  from try_encodings_result [OF reads(1)] obtain t enc where
    "try_encodings e fs p encodings = Inr (Some (universal_newlines t, enc))"
    "decode enc raw = Some t" "enc \<noteq> CP1252"
    by blast
  with reads(2) show ?thesis by (intro decoded)
qed

lemma dry_run_keeps_filesystem: "fst (process_file_try e fs p True) = fs"
proof (cases rule: try_encodings_cases [of e fs p])
  case unreadable
  then show ?thesis by (simp add: process_file_try_unreadable)
next
  case (decoded raw t enc)
  obtain content tot lines where
    a: "apply_fixes ENCODING_FIXES (universal_newlines t) 0 [] = (content, tot, lines)"
    by (cases "apply_fixes ENCODING_FIXES (universal_newlines t) 0 []")
  obtain out raised where pr: "print_lines e lines = (out, raised)"
    by (cases "print_lines e lines")
  show ?thesis
  proof (cases raised)
    case None
    with pr have "print_lines e lines = (out, None)" by simp
    from process_file_try_decoded [OF decoded(4) a this, of True] show ?thesis
      by simp
  next
    case (Some err)
    with pr have "print_lines e lines = (out, Some err)" by simp
    from process_file_try_print_failed [OF decoded(4) a this, of True] show ?thesis
      by simp
  qed
qed

lemma dry_run_result:
  assumes t: "try_encodings e fs p encodings = Inr (Some (orig, enc))"
    and q: "\<forall>m. \<not> print_raises e m"
  shows "snd (snd (process_file_try e fs p True)) =
      Inr (fst (snd (apply_fixes ENCODING_FIXES orig 0 [])),
           0 < fst (snd (apply_fixes ENCODING_FIXES orig 0 [])))"
proof -
  obtain content tot lines where a: "apply_fixes ENCODING_FIXES orig 0 [] = (content, tot, lines)"
    by (cases "apply_fixes ENCODING_FIXES orig 0 []")
  have "content \<noteq> orig \<longleftrightarrow> 0 < tot"
    using changed_iff_positive [OF repairing_ENCODING_FIXES, of orig "[]"] a by simp
  with process_file_try_decoded [OF t a print_lines_all_quiet [OF q], of True] a q show ?thesis
    by auto
qed

lemma copy2_succeeds:
  "fs p = Some raw \<Longrightarrow> copy_outcome e p dst = Succeeds \<Longrightarrow> copy2 e fs p dst = (fs(dst \<mapsto> raw), None)"
  by (simp add: copy2_def)

lemma live_run_result:
  assumes t: "try_encodings e fs p encodings = Inr (Some (orig, enc))"
    and q: "\<forall>m. \<not> print_raises e m"
    and c: "copy_outcome e p (backup_path p) = Succeeds"
    and w: "write_outcome e p = Succeeds"
  shows "snd (snd (process_file_try e fs p False)) =
      Inr (fst (snd (apply_fixes ENCODING_FIXES orig 0 [])),
           0 < fst (snd (apply_fixes ENCODING_FIXES orig 0 [])))"
proof -
  obtain content tot lines where a: "apply_fixes ENCODING_FIXES orig 0 [] = (content, tot, lines)"
    by (cases "apply_fixes ENCODING_FIXES orig 0 []")
  have ch: "content \<noteq> orig \<longleftrightarrow> 0 < tot"
    using changed_iff_positive [OF repairing_ENCODING_FIXES, of orig "[]"] a by simp
  from t obtain raw where raw: "fs p = Some raw"
    by (cases rule: try_encodings_cases [of e fs p]) auto
  have "utf8_encode (write_newlines (platform e) (fst (apply_fixes ENCODING_FIXES orig 0 []))) \<noteq> None"
    by (rule content_always_encodes [OF t])
  then obtain bs where bs: "utf8_encode (write_newlines (platform e) content) = Some bs"
    using a by auto
  have wr: "write_text e fs1 p content = (fs1(p \<mapsto> bs), None)" for fs1
    using w bs by (simp add: write_text_def)
  have cp: "copy2 e fs p (backup_path p) = (fs(backup_path p \<mapsto> raw), None)"
    using raw c by (rule copy2_succeeds)
  show ?thesis
    using process_file_try_decoded [OF t a print_lines_all_quiet [OF q], of False] a ch q
    by (auto simp: cp wr)
qed

lemma process_file_filesystem: "fst (process_file e fs p dry) = fst (process_file_try e fs p dry)"
  by (simp add: process_file_def split: prod.splits sum.splits)

lemma process_file_output_subset:
  "set (fst (snd (process_file e fs p dry))) \<subseteq>
     set (fst (snd (process_file_try e fs p dry))) \<union> {Error_line err | err. True}"
  by (auto simp: process_file_def split: prod.splits sum.splits if_splits)

lemma process_file_result:
  "\<forall>m. \<not> print_raises e m \<Longrightarrow>
     snd (snd (process_file e fs p dry)) =
       (case snd (snd (process_file_try e fs p dry)) of
          Inl err \<Rightarrow> Inr (0, False) | Inr r \<Rightarrow> Inr r)"
  by (simp add: process_file_def split: prod.splits sum.splits)


lemma live_run_failed:
  assumes q: "\<forall>m. \<not> print_raises e m"
    and f: "copy_outcome e p (backup_path p) \<noteq> Succeeds \<or> write_outcome e p \<noteq> Succeeds"
  shows "snd (snd (process_file e fs p False)) = Inr (0, False)"
proof (cases rule: try_encodings_cases [of e fs p])
  case unreadable
  then show ?thesis
    using q by (simp add: process_file_result process_file_try_unreadable)
next
  case (decoded raw t enc)
  obtain content tot lines where
    a: "apply_fixes ENCODING_FIXES (universal_newlines t) 0 [] = (content, tot, lines)"
    by (cases "apply_fixes ENCODING_FIXES (universal_newlines t) 0 []")
  note body = process_file_try_decoded [OF decoded(4) a print_lines_all_quiet [OF q], of False]
  show ?thesis
  proof (cases "copy_outcome e p (backup_path p)")
    case (Raises left)
    then have "copy2 e fs p (backup_path p) = (fs(backup_path p := left), Some OSError_copy)"
      using decoded(1) by (simp add: copy2_def)
    with body show ?thesis
      using q by (simp add: process_file_result)
  next
    case Succeeds
    with f obtain left where "write_outcome e p = Raises left"
      by (cases "write_outcome e p") auto
    then have "write_text e fs1 p content = (fs1(p := left), Some OSError_write)" for fs1
      by (simp add: write_text_def)
    with body show ?thesis
      using q by (simp add: process_file_result split: prod.splits option.splits)
  qed
qed

lemma dry_equals_live:
  assumes q: "\<forall>m. \<not> print_raises e m"
    and c: "copy_outcome e p (backup_path p) = Succeeds"
    and w: "write_outcome e p = Succeeds"
  shows "snd (snd (process_file e fs p True)) = snd (snd (process_file e fs p False))"
proof (cases rule: try_encodings_cases [of e fs p])
  case unreadable
  then show ?thesis
    using q by (simp add: process_file_result process_file_try_unreadable)
next
  case (decoded raw t enc)
  from dry_run_result [OF decoded(4) q] live_run_result [OF decoded(4) q c w] show ?thesis
    using q by (simp add: process_file_result)
qed

section \<open>The sample inputs evaluated\<close>

lemma spaeter_pass:
  "apply_fixes ENCODING_FIXES spaeter_broken 0 [] =
     (spaeter_fixed, 1, [Fix_line [0xC3, 0xA4] [0xE4] 1])"
  by (simp add: ENCODING_FIXES_items spaeter_broken_def spaeter_fixed_def asc_def str_count_def
        str_replace_def)

lemma en_dash_first_pass:
  "apply_fixes ENCODING_FIXES [0xC3, 0xE2, 0x20AC, 0x201C] 0 [] =
     ([0xC3, 0x2013], 1, [Fix_line [0xE2, 0x20AC, 0x201C] [0x2013] 1])"
  by (simp add: ENCODING_FIXES_items asc_def str_count_def str_replace_def)

lemma en_dash_second_pass:
  "apply_fixes ENCODING_FIXES [0xC3, 0x2013] 0 [] =
     ([0xD6], 1, [Fix_line [0xC3, 0x2013] [0xD6] 1])"
  by (simp add: ENCODING_FIXES_items asc_def str_count_def str_replace_def)


lemma sample_files_content:
  "sample_files sample_path = Some spaeter_utf8" "sample_files other_path = Some fuer_cp1252"
  by (simp_all add: sample_files_def sample_path_def other_path_def asc_def)

lemma spaeter_utf8_decoded: "decode UTF_8 spaeter_utf8 = Some spaeter_broken"
  by (simp add: spaeter_utf8_def spaeter_broken_def asc_def Let_def in_range_def)

lemma fuer_cp1252_decoded:
  "decode UTF_8 fuer_cp1252 = None" "decode Windows_1252 fuer_cp1252 = Some fuer_broken"
  by (simp_all add: fuer_cp1252_def fuer_broken_def asc_def Let_def in_range_def cp1252_char_def
        cp1252_high_def)

lemma no_newlines: "universal_newlines spaeter_broken = spaeter_broken"
  "universal_newlines fuer_broken = fuer_broken"
  by (simp_all add: spaeter_broken_def fuer_broken_def asc_def)

lemma sample_decoded:
  "\<not> read_raises e sample_path \<Longrightarrow>
     try_encodings e sample_files sample_path encodings = Inr (Some (spaeter_broken, UTF_8))"
  by (simp add: encodings_def open_read_def sample_files_content spaeter_utf8_decoded
        no_newlines del: decode.simps)


lemma spaeter_fixed_utf8:
  "utf8_encode (write_newlines Posix spaeter_fixed) = Some [0x73, 0x70, 0xC3, 0xA4, 0x74, 0x65, 0x72]"
  by (simp add: write_newlines_def spaeter_fixed_def asc_def utf8_encode_char_def)


lemma sample_texts_changed: "spaeter_fixed \<noteq> spaeter_broken" "fuer_fixed \<noteq> fuer_broken"
  by (simp_all add: spaeter_broken_def spaeter_fixed_def fuer_fixed_def fuer_broken_def asc_def)


lemma calm_env_fields:
  "platform calm_env = Posix" "read_raises calm_env p = False"
  "copy_outcome calm_env src dst = Succeeds" "write_outcome calm_env p = Succeeds"
  "print_raises calm_env m = False"
  "path_exists calm_env p = True" "rglob calm_env p = [sample_path, other_path]"
  "is_file calm_env p = True"
  by (simp_all add: calm_env_def)

lemma readonly_env_fields:
  "platform readonly_env = Posix" "read_raises readonly_env p = False"
  "copy_outcome readonly_env src dst = Raises None" "write_outcome readonly_env p = Succeeds"
  "print_raises readonly_env m = False"
  by (simp_all add: readonly_env_def calm_env_def)

lemma full_disk_env_fields:
  "platform full_disk_env = Posix" "read_raises full_disk_env p = False"
  "copy_outcome full_disk_env src dst = Succeeds"
  "write_outcome full_disk_env p = Raises (Some [])" "print_raises full_disk_env m = False"
  by (simp_all add: full_disk_env_def calm_env_def)


lemma sample_try:
  assumes "\<not> read_raises e sample_path" and "\<not> print_raises e (Fix_line [0xC3, 0xA4] [0xE4] 1)"
  shows "process_file_try e sample_files sample_path dry =
     (if \<not> dry then
        (case copy2 e sample_files sample_path (backup_path sample_path) of
           (fs1, Some err) \<Rightarrow> (fs1, [Fix_line [0xC3, 0xA4] [0xE4] 1], Inl err)
         | (fs1, None) \<Rightarrow>
             (case write_text e fs1 sample_path spaeter_fixed of
                (fs2, Some err) \<Rightarrow> (fs2, [Fix_line [0xC3, 0xA4] [0xE4] 1], Inl err)
              | (fs2, None) \<Rightarrow>
                  if print_raises e (Repaired_line 1)
                  then (fs2, [Fix_line [0xC3, 0xA4] [0xE4] 1], Inl Print_failed)
                  else (fs2, [Fix_line [0xC3, 0xA4] [0xE4] 1] @ [Repaired_line 1], Inr (1, True))))
      else if print_raises e (Would_repair_line 1)
           then (sample_files, [Fix_line [0xC3, 0xA4] [0xE4] 1], Inl Print_failed)
           else (sample_files, [Fix_line [0xC3, 0xA4] [0xE4] 1] @ [Would_repair_line 1],
                 Inr (1, True)))"
proof -
  have "print_lines e [Fix_line [0xC3, 0xA4] [0xE4] 1] = ([Fix_line [0xC3, 0xA4] [0xE4] 1], None)"
    using assms(2) by simp
  from process_file_try_decoded [OF sample_decoded [OF assms(1)] spaeter_pass this, of dry]
  show ?thesis
    by (simp add: sample_texts_changed)
qed

lemma sample_dry_run:
  assumes "\<not> read_raises e sample_path" and "\<forall>m. \<not> print_raises e m"
  shows "process_file e sample_files sample_path True =
     (sample_files, [Fix_line [0xC3, 0xA4] [0xE4] 1, Would_repair_line 1], Inr (1, True))"
  using sample_try [of e True] assms by (simp add: process_file_def)

lemma sample_live_run:
  "process_file calm_env sample_files sample_path False =
     (sample_files(backup_path sample_path \<mapsto> spaeter_utf8,
        sample_path \<mapsto> [0x73, 0x70, 0xC3, 0xA4, 0x74, 0x65, 0x72]),
      [Fix_line [0xC3, 0xA4] [0xE4] 1, Repaired_line 1], Inr (1, True))"
  using sample_try [of calm_env False]
  by (simp add: process_file_def copy2_def write_text_def calm_env_fields spaeter_fixed_utf8
        sample_files_content)

lemma sample_live_run_readonly:
  "process_file readonly_env sample_files sample_path False =
     (sample_files(backup_path sample_path := None),
      [Fix_line [0xC3, 0xA4] [0xE4] 1, Error_line OSError_copy], Inr (0, False))"
  using sample_try [of readonly_env False]
  by (simp add: process_file_def copy2_def readonly_env_fields sample_files_content)

lemma sample_live_run_full_disk:
  "process_file full_disk_env sample_files sample_path False =
     (sample_files(backup_path sample_path \<mapsto> spaeter_utf8, sample_path \<mapsto> []),
      [Fix_line [0xC3, 0xA4] [0xE4] 1, Error_line OSError_write], Inr (0, False))"
  using sample_try [of full_disk_env False]
  by (simp add: process_file_def copy2_def write_text_def full_disk_env_fields
        sample_files_content)





lemma spaeter_spec_pass: "spec_pass ENCODING_FIXES spaeter_broken = (spaeter_fixed, 1)"
  using apply_fixes_spec [of ENCODING_FIXES spaeter_broken 0 "[]"]
  by (simp add: spec_pass_def spaeter_pass)




section \<open>Runs of \<open>process_file\<close> and of the walk\<close>

lemma apply_fixes_output:
  "set (snd (snd (apply_fixes table t n out))) \<subseteq>
     set out \<union> {Fix_line wrong correct k | wrong correct k. True}"
proof (induction table t n out rule: apply_fixes.induct)
  case (1 content total_replacements out)
  then show ?case by simp
next
  case (2 wrong correct rest content total_replacements out)
  show ?case
  proof (cases "str_count content wrong > 0")
    case True
    with "2.IH"(1) [OF refl True] show ?thesis by (auto simp: Let_def)
  next
    case False
    with "2.IH"(2) [OF refl False] show ?thesis by (auto simp: Let_def)
  qed
qed

lemma no_unknown_encoding_in_pass:
  "Unknown_encoding_line \<notin> set (snd (snd (apply_fixes table t 0 [])))"
  using apply_fixes_output [of table t 0 "[]"] by auto


lemma no_unknown_encoding_line:
  "Unknown_encoding_line \<notin> set (fst (snd (process_file e fs p dry)))"
proof -
  have "Unknown_encoding_line \<notin> set (fst (snd (process_file_try e fs p dry)))"
  proof (cases rule: try_encodings_cases [of e fs p])
    case unreadable
    then show ?thesis
      by (simp add: process_file_try_unreadable)
  next
    case (decoded raw t enc)
    obtain content tot lines where
      a: "apply_fixes ENCODING_FIXES (universal_newlines t) 0 [] = (content, tot, lines)"
      by (cases "apply_fixes ENCODING_FIXES (universal_newlines t) 0 []")
    obtain out raised where pr: "print_lines e lines = (out, raised)"
      by (cases "print_lines e lines")
    have "Unknown_encoding_line \<notin> set lines"
      using no_unknown_encoding_in_pass [of ENCODING_FIXES "universal_newlines t"] a by simp
    then have no: "Unknown_encoding_line \<notin> set out"
      using print_lines_subset [of e lines] pr by auto
    show ?thesis
    proof (cases raised)
      case None
      with pr have "print_lines e lines = (out, None)" by simp
      from process_file_try_decoded [OF decoded(4) a this, of dry] no show ?thesis
        by (auto split: if_splits prod.splits option.splits)
    next
      case (Some err)
      with pr have "print_lines e lines = (out, Some err)" by simp
      from process_file_try_print_failed [OF decoded(4) a this, of dry] no show ?thesis
        by simp
    qed
  qed
  then show ?thesis
    using process_file_output_subset [of e fs p dry] by auto
qed






section \<open>The claims\<close>

text \<open>
  C1, as the code has it. The claim as stated fails where the live run raises after the
  pass: when the write fails, the sum of the per-entry counts of the sample text is 1 and
  the live run returns 0.
\<close>

theorem write_failure_returns_zero:
  "try_encodings full_disk_env sample_files sample_path encodings =
     Inr (Some (spaeter_broken, UTF_8)) \<and>
   snd (spec_pass ENCODING_FIXES spaeter_broken) = 1 \<and>
   snd (snd (process_file full_disk_env sample_files sample_path False)) = Inr (0, False)"
proof -
  have "\<not> read_raises full_disk_env sample_path"
    by (simp add: full_disk_env_fields)
  then show ?thesis
    by (simp add: sample_decoded spaeter_spec_pass sample_live_run_full_disk)
qed

text \<open>
  C1, amended. For every decoded text, the loop of \<open>process_file\<close> computes what the
  specification describes: a left fold over the table in iteration order in which every
  entry counts its pattern in the current text, replaces all occurrences and adds the
  count to the running total, so that each entry works on the result of the entries before
  it. For every file decoded to that text, the returned count is the sum of the per-entry
  counts, and the changed flag is set exactly when that sum is positive, whenever the
  \<open>try\<close> block returns; on a console where no \<open>print\<close> raises this is so in every dry
  run and in every live run whose backup copy and write succeed, whereas a live run whose
  backup copy or write fails returns (0, False).
\<close>

theorem substitution_pass_in_table_order:
  "(fst (apply_fixes ENCODING_FIXES decoded 0 []), fst (snd (apply_fixes ENCODING_FIXES decoded 0 []))) =
     spec_pass ENCODING_FIXES decoded \<and>
   (try_encodings e fs file_path encodings = Inr (Some (decoded, enc)) \<longrightarrow>
      (process_file_try e fs file_path dry_run = (fs', out, Inr (n, changed)) \<longrightarrow>
         n = snd (spec_pass ENCODING_FIXES decoded) \<and> changed = (0 < n) \<and>
         process_file e fs file_path dry_run = (fs', out, Inr (n, changed))) \<and>
      ((\<forall>m. \<not> print_raises e m) \<longrightarrow>
         snd (snd (process_file e fs file_path True)) =
           Inr (snd (spec_pass ENCODING_FIXES decoded), 0 < snd (spec_pass ENCODING_FIXES decoded)) \<and>
         (copy_outcome e file_path (backup_path file_path) = Succeeds \<and>
          write_outcome e file_path = Succeeds \<longrightarrow>
            snd (snd (process_file e fs file_path False)) =
              Inr (snd (spec_pass ENCODING_FIXES decoded),
                   0 < snd (spec_pass ENCODING_FIXES decoded))) \<and>
         (copy_outcome e file_path (backup_path file_path) \<noteq> Succeeds \<or>
          write_outcome e file_path \<noteq> Succeeds \<longrightarrow>
            snd (snd (process_file e fs file_path False)) = Inr (0, False))))"
proof -
  have spec: "(fst (apply_fixes ENCODING_FIXES decoded 0 []),
      fst (snd (apply_fixes ENCODING_FIXES decoded 0 []))) = spec_pass ENCODING_FIXES decoded"
    unfolding spec_pass_def by (rule apply_fixes_spec)
  then have sum: "snd (spec_pass ENCODING_FIXES decoded) =
      fst (snd (apply_fixes ENCODING_FIXES decoded 0 []))"
    by (metis snd_conv)
  have returned: "n = snd (spec_pass ENCODING_FIXES decoded) \<and> changed = (0 < n) \<and>
      process_file e fs file_path dry_run = (fs', out, Inr (n, changed))"
    if t: "try_encodings e fs file_path encodings = Inr (Some (decoded, enc))"
      and p: "process_file_try e fs file_path dry_run = (fs', out, Inr (n, changed))"
  proof -
    obtain content tot lines where a: "apply_fixes ENCODING_FIXES decoded 0 [] = (content, tot, lines)"
      by (cases "apply_fixes ENCODING_FIXES decoded 0 []")
    obtain out0 raised where pr: "print_lines e lines = (out0, raised)"
      by (cases "print_lines e lines")
    have ch: "content \<noteq> decoded \<longleftrightarrow> 0 < tot"
      using changed_iff_positive [OF repairing_ENCODING_FIXES, of decoded "[]"] a by simp
    have "raised = None"
    proof (cases raised)
      case (Some err)
      with pr have "print_lines e lines = (out0, Some err)" by simp
      from process_file_try_print_failed [OF t a this, of dry_run] p show ?thesis by simp
    qed simp
    with pr have "print_lines e lines = (out0, None)" by simp
    from process_file_try_decoded [OF t a this, of dry_run] p ch
    have "n = tot \<and> changed = (0 < tot)"
      by (auto split: if_splits prod.splits option.splits)
    with sum a p show ?thesis
      by (simp add: process_file_def)
  qed
  have dry: "snd (snd (process_file e fs file_path True)) =
      Inr (snd (spec_pass ENCODING_FIXES decoded), 0 < snd (spec_pass ENCODING_FIXES decoded))"
    if t: "try_encodings e fs file_path encodings = Inr (Some (decoded, enc))"
      and q: "\<forall>m. \<not> print_raises e m"
    using dry_run_result [OF t q] q by (simp add: process_file_result sum)
  have live: "snd (snd (process_file e fs file_path False)) =
      Inr (snd (spec_pass ENCODING_FIXES decoded), 0 < snd (spec_pass ENCODING_FIXES decoded))"
    if t: "try_encodings e fs file_path encodings = Inr (Some (decoded, enc))"
      and q: "\<forall>m. \<not> print_raises e m"
      and c: "copy_outcome e file_path (backup_path file_path) = Succeeds"
      and w: "write_outcome e file_path = Succeeds"
    using live_run_result [OF t q c w] q by (simp add: process_file_result sum)
  have failed: "snd (snd (process_file e fs file_path False)) = Inr (0, False)"
    if "\<forall>m. \<not> print_raises e m"
      and "copy_outcome e file_path (backup_path file_path) \<noteq> Succeeds \<or>
        write_outcome e file_path \<noteq> Succeeds"
    using that by (rule live_run_failed)
  from spec returned dry live failed show ?thesis
    by blast
qed

theorem substitution_pass_in_table_order_witness:
  "try_encodings calm_env sample_files sample_path encodings = Inr (Some (spaeter_broken, UTF_8)) \<and>
   (\<forall>m. \<not> print_raises calm_env m) \<and>
   copy_outcome calm_env sample_path (backup_path sample_path) = Succeeds \<and>
   write_outcome calm_env sample_path = Succeeds \<and>
   spec_pass ENCODING_FIXES spaeter_broken = (spaeter_fixed, 1) \<and>
   snd (snd (process_file calm_env sample_files sample_path True)) = Inr (1, True) \<and>
   snd (snd (process_file calm_env sample_files sample_path False)) = Inr (1, True) \<and>
   try_encodings readonly_env sample_files sample_path encodings =
     Inr (Some (spaeter_broken, UTF_8)) \<and>
   (\<forall>m. \<not> print_raises readonly_env m) \<and>
   copy_outcome readonly_env sample_path (backup_path sample_path) \<noteq> Succeeds \<and>
   snd (snd (process_file readonly_env sample_files sample_path False)) = Inr (0, False)"
proof -
  have t: "try_encodings calm_env sample_files sample_path encodings =
      Inr (Some (spaeter_broken, UTF_8))"
    by (rule sample_decoded) (simp add: calm_env_fields)
  have q: "\<forall>m. \<not> print_raises calm_env m"
    and c: "copy_outcome calm_env sample_path (backup_path sample_path) = Succeeds"
    and w: "write_outcome calm_env sample_path = Succeeds"
    by (simp_all add: calm_env_fields)
  have t': "try_encodings readonly_env sample_files sample_path encodings =
      Inr (Some (spaeter_broken, UTF_8))"
    by (rule sample_decoded) (simp add: readonly_env_fields)
  have q': "\<forall>m. \<not> print_raises readonly_env m"
    and c': "copy_outcome readonly_env sample_path (backup_path sample_path) \<noteq> Succeeds"
    by (simp_all add: readonly_env_fields)
  note calm = substitution_pass_in_table_order [of spaeter_broken calm_env sample_files
      sample_path UTF_8]
  note readonly = substitution_pass_in_table_order [of spaeter_broken readonly_env sample_files
      sample_path UTF_8]
  have "spec_pass ENCODING_FIXES spaeter_broken = (spaeter_fixed, 1)"
    using calm by (simp add: spaeter_pass)
  moreover have "snd (snd (process_file calm_env sample_files sample_path True)) =
      Inr (snd (spec_pass ENCODING_FIXES spaeter_broken),
           0 < snd (spec_pass ENCODING_FIXES spaeter_broken))"
    "snd (snd (process_file calm_env sample_files sample_path False)) =
      Inr (snd (spec_pass ENCODING_FIXES spaeter_broken),
           0 < snd (spec_pass ENCODING_FIXES spaeter_broken))"
    using calm t q c w by blast+
  moreover have "snd (snd (process_file readonly_env sample_files sample_path False)) =
      Inr (0, False)"
    using readonly t' q' c' by blast
  ultimately show ?thesis
    using t q c w t' q' c' by simp
qed



text \<open>
  C3, as the code has it. The claim as stated fails where the live run raises: when the
  backup copy fails, the dry run of the sample file returns (1, True) and the live run
  returns (0, False).
\<close>

theorem dry_run_differs_from_failed_live_run:
  "snd (snd (process_file readonly_env sample_files sample_path True)) = Inr (1, True) \<and>
   snd (snd (process_file readonly_env sample_files sample_path False)) = Inr (0, False)"
proof -
  have "\<not> read_raises readonly_env sample_path" "\<forall>m. \<not> print_raises readonly_env m"
    by (simp_all add: readonly_env_fields)
  then show ?thesis
    by (simp add: sample_dry_run sample_live_run_readonly)
qed

text \<open>
  C3, amended. For every file, a dry run leaves the filesystem exactly as it was (no
  backup, no changed content). On a console where no \<open>print\<close> raises, it returns the
  same (count, changed) result as a live run on the same input whenever the backup copy
  and the write of that live run succeed, and a live run whose backup copy or write fails
  returns (0, False).
\<close>

theorem dry_run_touches_nothing:
  "fst (process_file e fs file_path True) = fs \<and>
   ((\<forall>m. \<not> print_raises e m) \<longrightarrow>
      (copy_outcome e file_path (backup_path file_path) = Succeeds \<and>
       write_outcome e file_path = Succeeds \<longrightarrow>
         snd (snd (process_file e fs file_path True)) =
           snd (snd (process_file e fs file_path False))) \<and>
      (copy_outcome e file_path (backup_path file_path) \<noteq> Succeeds \<or>
       write_outcome e file_path \<noteq> Succeeds \<longrightarrow>
         snd (snd (process_file e fs file_path False)) = Inr (0, False)))"
  using dry_equals_live [of e file_path fs] live_run_failed [of e file_path fs]
  by (simp add: process_file_filesystem dry_run_keeps_filesystem)

theorem dry_run_touches_nothing_witness:
  "(\<forall>m. \<not> print_raises calm_env m) \<and>
   copy_outcome calm_env sample_path (backup_path sample_path) = Succeeds \<and>
   write_outcome calm_env sample_path = Succeeds \<and>
   fst (process_file calm_env sample_files sample_path True) = sample_files \<and>
   snd (snd (process_file calm_env sample_files sample_path True)) = Inr (1, True) \<and>
   snd (snd (process_file calm_env sample_files sample_path False)) = Inr (1, True) \<and>
   (\<forall>m. \<not> print_raises full_disk_env m) \<and>
   write_outcome full_disk_env sample_path \<noteq> Succeeds \<and>
   snd (snd (process_file full_disk_env sample_files sample_path False)) = Inr (0, False)"
proof -
  have h: "\<forall>m. \<not> print_raises calm_env m"
    "copy_outcome calm_env sample_path (backup_path sample_path) = Succeeds"
    "write_outcome calm_env sample_path = Succeeds"
    by (simp_all add: calm_env_fields)
  have h': "\<forall>m. \<not> print_raises full_disk_env m"
    "write_outcome full_disk_env sample_path \<noteq> Succeeds"
    by (simp_all add: full_disk_env_fields)
  from h dry_run_touches_nothing [of calm_env sample_files sample_path]
  have "fst (process_file calm_env sample_files sample_path True) = sample_files"
    "snd (snd (process_file calm_env sample_files sample_path True)) =
       snd (snd (process_file calm_env sample_files sample_path False))"
    by blast+
  moreover from h' dry_run_touches_nothing [of full_disk_env sample_files sample_path]
  have "snd (snd (process_file full_disk_env sample_files sample_path False)) = Inr (0, False)"
    by blast
  ultimately show ?thesis
    using h h' by (simp add: sample_live_run)
qed

text \<open>
  C4, as the code has it. The claim as stated fails: an en dash produced by the late entry
  U+00E2 U+20AC U+201C completes the pattern U+00C3 U+2013 of an earlier entry, which only
  a second pass replaces.
\<close>

theorem second_pass_replaces_again:
  "apply_fixes ENCODING_FIXES (fst (apply_fixes ENCODING_FIXES [0xC3, 0xE2, 0x20AC, 0x201C] 0 [])) 0 [] =
     ([0xD6], 1, [Fix_line [0xC3, 0x2013] [0xD6] 1])"
  by (simp add: en_dash_first_pass en_dash_second_pass)

text \<open>
  C4, amended. For every text whose first-pass result holds neither
  U+00C3 U+0192 U+00C2 U+2013 nor U+00C3 U+2013 (the two patterns that end in an en dash),
  a second pass performs no replacement: it returns the text unchanged with count 0 and
  prints nothing.
\<close>

theorem second_pass_finds_nothing:
  "str_count (fst (apply_fixes ENCODING_FIXES decoded 0 [])) [0xC3, 0x0192, 0xC2, 0x2013] = 0 \<and>
   str_count (fst (apply_fixes ENCODING_FIXES decoded 0 [])) [0xC3, 0x2013] = 0 \<longrightarrow>
   apply_fixes ENCODING_FIXES (fst (apply_fixes ENCODING_FIXES decoded 0 [])) 0 [] =
     (fst (apply_fixes ENCODING_FIXES decoded 0 []), 0, [])"
  using second_pass_quiet [of decoded 0 "[]" 0 "[]"] by blast

theorem second_pass_finds_nothing_witness:
  "str_count (fst (apply_fixes ENCODING_FIXES spaeter_broken 0 [])) [0xC3, 0x0192, 0xC2, 0x2013] = 0 \<and>
   str_count (fst (apply_fixes ENCODING_FIXES spaeter_broken 0 [])) [0xC3, 0x2013] = 0 \<and>
   apply_fixes ENCODING_FIXES (fst (apply_fixes ENCODING_FIXES spaeter_broken 0 [])) 0 [] =
     (spaeter_fixed, 0, [])"
proof -
  have h: "str_count (fst (apply_fixes ENCODING_FIXES spaeter_broken 0 [])) [0xC3, 0x0192, 0xC2, 0x2013] = 0 \<and>
      str_count (fst (apply_fixes ENCODING_FIXES spaeter_broken 0 [])) [0xC3, 0x2013] = 0"
    by (simp add: spaeter_pass spaeter_fixed_def asc_def str_count_def)
  with second_pass_finds_nothing [of spaeter_broken] show ?thesis
    by (simp add: spaeter_pass)
qed

text \<open>
  C5. The dict literal writes the left-arrow and the right-arrow mapping under the same
  key U+00E2 U+2020 U+2019 (its entries 39 and 40). The realised table maps that key to
  the right arrow U+2192 and holds no entry producing the left arrow U+2190. For every
  text, the pass ends by replacing every occurrence of the key with the right arrow, the
  result holds no occurrence of the key, and the pass never adds a left arrow: the result
  holds exactly as many as the input.
\<close>

theorem right_arrow_shadows_left_arrow:
  "ENCODING_FIXES_literal ! 39 = ([0xE2, 0x2020, 0x2019], [0x2190]) \<and>
   ENCODING_FIXES_literal ! 40 = ([0xE2, 0x2020, 0x2019], [0x2192]) \<and>
   map_of ENCODING_FIXES [0xE2, 0x2020, 0x2019] = Some [0x2192] \<and>
   ([0xE2, 0x2020, 0x2019], [0x2190]) \<notin> set ENCODING_FIXES \<and>
   fst (apply_fixes ENCODING_FIXES decoded 0 []) =
     str_replace (fst (apply_fixes (butlast ENCODING_FIXES) decoded 0 []))
       [0xE2, 0x2020, 0x2019] [0x2192] \<and>
   str_count (fst (apply_fixes ENCODING_FIXES decoded 0 [])) [0xE2, 0x2020, 0x2019] = 0 \<and>
   count_list (fst (apply_fixes ENCODING_FIXES decoded 0 [])) 0x2190 = count_list decoded 0x2190"
proof -
  have "\<not> sublist [0xE2, 0x2020, 0x2019] (fst (apply_fixes ENCODING_FIXES decoded 0 []))"
    using cleared_absent [OF arrow_cleared ENCODING_FIXES_nonempty] by simp
  then have "str_count (fst (apply_fixes ENCODING_FIXES decoded 0 [])) [0xE2, 0x2020, 0x2019] = 0"
    by (simp add: str_count_zero_iff)
  moreover have "fst (apply_fixes ENCODING_FIXES decoded 0 []) =
     str_replace (fst (apply_fixes (butlast ENCODING_FIXES) decoded 0 []))
       [0xE2, 0x2020, 0x2019] [0x2192]"
    by (rule arrow_step)
  moreover have
    "count_list (fst (apply_fixes ENCODING_FIXES decoded 0 [])) 0x2190 = count_list decoded 0x2190"
    by (rule count_list_apply_fixes [OF no_left_arrow_in_table])
  ultimately show ?thesis
    using literal_arrows by simp
qed

text \<open>
  C6, as the code has it. The claim as stated fails: on the garbled word
  \<open>sp\<close> U+00C3 U+00A4 \<open>ter\<close>, which has a whole-word entry of its own, the only
  replacement performed is that of the character entry U+00C3 U+00A4.
\<close>

theorem spaeter_fixed_by_character_entry:
  "(spaeter_broken, spaeter_fixed) \<in> set word_entries \<and>
   ([0xC3, 0xA4], [0xE4]) \<in> set character_entries \<and>
   apply_fixes ENCODING_FIXES spaeter_broken 0 [] =
     (spaeter_fixed, 1, [Fix_line [0xC3, 0xA4] [0xE4] 1])"
  using spaeter_pass
  by (simp add: word_entries_def character_entries_def ENCODING_FIXES_items spaeter_broken_def
        spaeter_fixed_def)

text \<open>
  C6, amended. The character entries precede the whole-word entries in iteration order, and
  for every text the pass with the whole table returns the same text, the same count and
  the same output as the pass with the whole-word entries left out: the whole-word entries
  never find an occurrence, every garbled word is corrected by the character entries.
\<close>

theorem word_entries_are_dormant:
  "ENCODING_FIXES = character_entries @ word_entries @ symbol_entries \<and>
   apply_fixes ENCODING_FIXES decoded 0 [] = apply_fixes (character_entries @ symbol_entries) decoded 0 []"
  using ENCODING_FIXES_blocks word_entries_never_fire [of decoded 0 "[]"] by simp

text \<open>
  C7. The encodings tried are UTF-8, Windows-1252, ISO-8859-1, CP1252 in this order, and
  for a file that can be read the loop returns the text decoded with the first encoding
  of the list that decodes the bytes without error. In particular, for bytes that are not
  UTF-8 the loop still returns a text, decoded with a later encoding, and
  \<open>process_file\<close> does not print the read failure.
\<close>

theorem decoding_fallback_order:
  "encodings = [UTF_8, Windows_1252, ISO_8859_1, CP1252] \<and>
   (open_read e fs file_path = Inr raw \<longrightarrow>
      try_encodings e fs file_path encodings =
        Inr (case find (\<lambda>enc. decode enc raw \<noteq> None) encodings of
               None \<Rightarrow> None
             | Some enc \<Rightarrow> map_option (\<lambda>t. (universal_newlines t, enc)) (decode enc raw)) \<and>
      (decode UTF_8 raw = None \<longrightarrow>
         (\<exists>t enc. enc \<noteq> UTF_8 \<and> decode enc raw = Some t \<and>
            try_encodings e fs file_path encodings = Inr (Some (universal_newlines t, enc))) \<and>
         Unknown_encoding_line \<notin> set (fst (snd (process_file e fs file_path dry_run)))))"
proof -
  have "\<exists>t enc. enc \<noteq> UTF_8 \<and> decode enc raw = Some t \<and>
      try_encodings e fs file_path encodings = Inr (Some (universal_newlines t, enc))"
    if r: "open_read e fs file_path = Inr raw" and u: "decode UTF_8 raw = None"
  proof -
    from try_encodings_result [OF r] obtain t enc where
      t: "try_encodings e fs file_path encodings = Inr (Some (universal_newlines t, enc))"
      "decode enc raw = Some t"
      by blast
    with u have "enc \<noteq> UTF_8" by auto
    with t show ?thesis by blast
  qed
  then show ?thesis
    using try_encodings_first [of e fs file_path raw encodings] no_unknown_encoding_line
    by (auto simp: encodings_def)
qed

theorem decoding_fallback_order_witness:
  "open_read calm_env sample_files other_path = Inr fuer_cp1252 \<and>
   decode UTF_8 fuer_cp1252 = None \<and>
   try_encodings calm_env sample_files other_path encodings =
     Inr (Some (fuer_broken, Windows_1252)) \<and>
   Unknown_encoding_line \<notin> set (fst (snd (process_file calm_env sample_files other_path False)))"
proof -
  have r: "open_read calm_env sample_files other_path = Inr fuer_cp1252"
    by (simp add: open_read_def calm_env_fields sample_files_content)
  have u: "decode UTF_8 fuer_cp1252 = None"
    by (rule fuer_cp1252_decoded)
  have "try_encodings calm_env sample_files other_path encodings =
      Inr (case find (\<lambda>enc. decode enc fuer_cp1252 \<noteq> None) encodings of
             None \<Rightarrow> None
           | Some enc \<Rightarrow> map_option (\<lambda>t. (universal_newlines t, enc)) (decode enc fuer_cp1252))"
    and "Unknown_encoding_line \<notin>
      set (fst (snd (process_file calm_env sample_files other_path False)))"
    using decoding_fallback_order [of calm_env sample_files other_path fuer_cp1252 False] r u
    by blast+
  then show ?thesis
    using r u by (simp add: encodings_def fuer_cp1252_decoded no_newlines del: decode.simps)
qed






text \<open>
  C10. ISO-8859-1 decodes every byte sequence, so for every file the loop over the
  encodings never ends with its list exhausted and never gets as far as CP1252, and
  \<open>process_file\<close> never prints the unknown-encoding read failure.
\<close>

theorem unknown_encoding_unreachable:
  "decode ISO_8859_1 raw = Some (map unat raw) \<and>
   try_encodings e fs file_path encodings \<noteq> Inr None \<and>
   try_encodings e fs file_path encodings \<noteq> Inr (Some (decoded, CP1252)) \<and>
   Unknown_encoding_line \<notin> set (fst (snd (process_file e fs file_path dry_run)))"
proof -
  have "try_encodings e fs file_path encodings \<noteq> Inr (Some (decoded, CP1252))"
    by (cases rule: try_encodings_cases [of e fs file_path]) auto
  then show ?thesis
    using decode_latin1_total try_encodings_never_exhausted no_unknown_encoding_line
    by blast
qed

end
